theory Spec2Isabelle
  imports Main
begin

section \<open>The environment of the program\<close>

text \<open>
  The program (\<^verbatim>\<open>include_parse.cpp\<close>) is written against the C++ standard library.
  Four of the library's behaviours are left open by the language standard or differ
  between its implementations, and each decides what the program computes. They are
  parameters of the model, collected in one record, and every theorem below is stated
  for an arbitrary value of the record unless it says otherwise.

  \<^item> \<open>anchors\<close>: where the regular-expression engine lets \<^verbatim>\<open>^\<close> and \<^verbatim>\<open>$\<close> match inside the
    input. The program constructs every \<^verbatim>\<open>std::regex\<close> with the default flags, for which
    ISO C++ (ECMAScript grammar, no \<^verbatim>\<open>multiline\<close> flag) lets \<^verbatim>\<open>^\<close> match at the start of the
    input only and \<^verbatim>\<open>$\<close> at its end only (\<open>Input_only\<close>); some engines treat the two as
    line anchors all the same, after and before a line feed (\<open>After_LF\<close>) or after and
    before each of ECMAScript's line terminators (\<open>After_LF_CR\<close>).
  \<^item> \<open>generic_string\<close>: \<^verbatim>\<open>std::filesystem::path::generic_string\<close>, from the pathname a path
    was constructed from to its generic-format string.
  \<^item> \<open>parent_path\<close>: \<^verbatim>\<open>std::filesystem::path::parent_path\<close>.
  \<^item> \<open>hash_string\<close>: \<^verbatim>\<open>std::hash<std::string>\<close>, whose value is a \<^verbatim>\<open>size_t\<close>. ISO C++
    requires that equal strings have equal hashes within one execution of the program,
    and no more.

  A value of the record is the library as one execution of the program finds it; two
  executions are two values, which may differ.

  A \<^verbatim>\<open>std::filesystem::path\<close> is modelled by the pathname it was constructed from, a
  \<^verbatim>\<open>std::string\<close> by the list of its bytes.
\<close>

datatype anchoring = Input_only | After_LF | After_LF_CR

record platform =
  anchors :: anchoring
  generic_string :: "string \<Rightarrow> string"
  parent_path :: "string \<Rightarrow> string"
  hash_string :: "string \<Rightarrow> nat"

text \<open>The files that \<^verbatim>\<open>slurp\<close> can open, by the name given to \<^verbatim>\<open>std::ifstream\<close>.\<close>

type_synonym file_system = "string \<rightharpoonup> string"

section \<open>Character classes of the regular expressions\<close>

text \<open>
  \<^verbatim>\<open>\s\<close>, \<^verbatim>\<open>[a-zA-Z0-9]\<close>, \<^verbatim>\<open>\b\<close> and \<^verbatim>\<open>.\<close> in the classic locale, which the program
  never changes: white space is the blank and the bytes 9 to 13, a word character is
  an ASCII letter, a digit or the underscore, and \<^verbatim>\<open>.\<close> matches every byte but the line
  terminators LF and CR.
\<close>

definition is_space :: "char \<Rightarrow> bool" where
  "is_space c \<longleftrightarrow>
     c = CHR '' '' \<or> c = CHR 0x09 \<or> c = CHR 0x0A \<or> c = CHR 0x0B \<or> c = CHR 0x0C \<or> c = CHR 0x0D"

definition is_alnum :: "char \<Rightarrow> bool" where
  "is_alnum c \<longleftrightarrow>
     (let n = (of_char c :: nat)
      in (48 \<le> n \<and> n \<le> 57) \<or> (65 \<le> n \<and> n \<le> 90) \<or> (97 \<le> n \<and> n \<le> 122))"

definition is_word :: "char \<Rightarrow> bool" where
  "is_word c \<longleftrightarrow> is_alnum c \<or> c = CHR ''_''"

definition is_line_terminator :: "char \<Rightarrow> bool" where
  "is_line_terminator c \<longleftrightarrow> c = CHR 0x0A \<or> c = CHR 0x0D"

text \<open>
  The anchors. \<open>prev\<close> is the byte before the current position, \<open>None\<close> at the very
  start of the input; \<open>rest\<close> is the input from the current position on.
\<close>

definition line_anchor :: "anchoring \<Rightarrow> char \<Rightarrow> bool" where
  "line_anchor a c =
     (case a of
        Input_only \<Rightarrow> False
      | After_LF \<Rightarrow> c = CHR 0x0A
      | After_LF_CR \<Rightarrow> c = CHR 0x0A \<or> c = CHR 0x0D)"

definition at_bol :: "anchoring \<Rightarrow> char option \<Rightarrow> bool" where
  "at_bol a prev = (case prev of None \<Rightarrow> True | Some c \<Rightarrow> line_anchor a c)"

definition at_eol :: "anchoring \<Rightarrow> string \<Rightarrow> bool" where
  "at_eol a rest = (case rest of [] \<Rightarrow> True | c # _ \<Rightarrow> line_anchor a c)"

section \<open>The patterns of the program\<close>

text \<open>
  A pattern is modelled by what the backtracking engine finds when it tries the pattern
  at one position: the length of the match that starts there, if there is one. None of
  the program's patterns matches the empty string.
\<close>

type_synonym regex = "char option \<Rightarrow> string \<Rightarrow> nat option"

text \<open>\<^verbatim>\<open>^\s*#pragma\s+once\b\<close> (line 39).\<close>

definition pragma_once_directive_re :: "anchoring \<Rightarrow> regex" where
  "pragma_once_directive_re anc prev s =
     (if at_bol anc prev then
        (let s1 = dropWhile is_space s in
         if take 7 s1 = ''#pragma'' then
           (let s2 = drop 7 s1; s3 = dropWhile is_space s2 in
            if s2 \<noteq> [] \<and> is_space (hd s2) \<and> take 4 s3 = ''once''
               \<and> (case drop 4 s3 of [] \<Rightarrow> True | d # _ \<Rightarrow> \<not> is_word d)
            then Some (length s - length (drop 4 s3))
            else None)
         else None)
      else None)"

text \<open>
  \<^verbatim>\<open>/\*[^]*?\*/\<close> (line 47): the lazy star stops at the first \<^verbatim>\<open>*/\<close> after the opener.
\<close>

fun find_star_slash :: "string \<Rightarrow> nat option" where
  "find_star_slash (a # b # r) =
     (if a = CHR ''*'' \<and> b = CHR ''/'' then Some 0 else map_option Suc (find_star_slash (b # r)))"
| "find_star_slash _ = None"

definition block_comment_re :: regex where
  "block_comment_re prev s =
     (if take 2 s = ''/*'' then map_option (\<lambda>k. k + 4) (find_star_slash (drop 2 s)) else None)"

text \<open>\<^verbatim>\<open>//.*\<close> (line 53).\<close>

definition line_comment_re :: regex where
  "line_comment_re prev s =
     (if take 2 s = ''//''
      then Some (2 + length (takeWhile (\<lambda>c. \<not> is_line_terminator c) (drop 2 s)))
      else None)"

text \<open>\<^verbatim>\<open>[^a-zA-Z0-9]+\<close> (line 137).\<close>

definition non_identifier_re :: regex where
  "non_identifier_re prev s =
     (let n = length (takeWhile (\<lambda>c. \<not> is_alnum c) s) in if n = 0 then None else Some n)"

text \<open>
  \<^verbatim>\<open>^_+|_+$\<close> (line 138). Both alternatives take the whole run of underscores: the second
  cannot give any back, since \<^verbatim>\<open>$\<close> does not hold before an underscore.
\<close>

definition underscore_at_ends_re :: "anchoring \<Rightarrow> regex" where
  "underscore_at_ends_re anc prev s =
     (let n = length (takeWhile (\<lambda>c. c = CHR ''_'') s) in
      if n = 0 then None
      else if at_bol anc prev then Some n
      else if at_eol anc (drop n s) then Some n
      else None)"

text \<open>
  \<^verbatim>\<open>#include\s*("[^"]+"|<[^>]*>)\<close> (line 107): the length of the match and the text of
  its group 1, the payload with both delimiters.
\<close>

definition include_directive_re :: "string \<Rightarrow> (nat \<times> string) option" where
  "include_directive_re s =
     (if take 8 s = ''#include'' then
        (let ws = takeWhile is_space (drop 8 s); s1 = dropWhile is_space (drop 8 s) in
         case s1 of
           [] \<Rightarrow> None
         | d # t \<Rightarrow>
             if d = CHR 0x22 then
               (let body = takeWhile (\<lambda>c. c \<noteq> CHR 0x22) t in
                if body \<noteq> [] \<and> drop (length body) t \<noteq> []
                then Some (8 + length ws + length body + 2, d # body @ [CHR 0x22])
                else None)
             else if d = CHR ''<'' then
               (let body = takeWhile (\<lambda>c. c \<noteq> CHR ''>'') t in
                if drop (length body) t \<noteq> []
                then Some (8 + length ws + length body + 2, d # body @ [CHR ''>''])
                else None)
             else None)
      else None)"

section \<open>The library's algorithms\<close>

text \<open>
  \<^verbatim>\<open>std::regex_replace(source, re, fmt)\<close>: the matches are found from left to right, each
  search starting where the match before ended; what lies between the matches is
  copied, each match is replaced by \<open>fmt\<close> (no format string of the program has a
  \<^verbatim>\<open>$\<close> escape). A pattern of the program never matches the empty string
  (\<open>patterns_nonempty\<close> below), so the case \<open>Some 0\<close> is there for totality only.
\<close>

fun regex_replace :: "regex \<Rightarrow> string \<Rightarrow> char option \<Rightarrow> string \<Rightarrow> string" where
  "regex_replace re fmt prev [] = []"
| "regex_replace re fmt prev (c # cs) =
     (case re prev (c # cs) of
        None \<Rightarrow> c # regex_replace re fmt (Some c) cs
      | Some 0 \<Rightarrow> c # regex_replace re fmt (Some c) cs
      | Some (Suc n) \<Rightarrow> fmt @ regex_replace re fmt (Some ((c # cs) ! n)) (drop n cs))"

text \<open>
  \<^verbatim>\<open>std::regex_search(str, match, include_directive_re)\<close> on a C string: the leftmost
  match, as the offset of the match in \<open>str\<close>, its length and its group 1.
\<close>

fun regex_search :: "string \<Rightarrow> (nat \<times> nat \<times> string) option" where
  "regex_search [] = None"
| "regex_search (c # cs) =
     (case include_directive_re (c # cs) of
        Some (len, payload) \<Rightarrow> Some (0, len, payload)
      | None \<Rightarrow> map_option (\<lambda>(off, len, payload). (Suc off, len, payload)) (regex_search cs))"

text \<open>A \<^verbatim>\<open>const char*\<close> read as a C string ends before its first NUL byte.\<close>

definition c_str :: "string \<Rightarrow> string" where
  "c_str s = takeWhile (\<lambda>c. c \<noteq> CHR 0x00) s"

text \<open>\<^verbatim>\<open>std::to_string\<close> of an unsigned value: its decimal digits.\<close>

definition digit_char :: "nat \<Rightarrow> char" where
  "digit_char d = ''0123456789'' ! d"

fun to_string :: "nat \<Rightarrow> string" where
  "to_string n =
     (if n < 10 then [digit_char n] else to_string (n div 10) @ [digit_char (n mod 10)])"

declare to_string.simps [simp del]

section \<open>The data of the program\<close>

record Session =
  visiting :: "string set"
  should_skip :: "string set"

record Preprocess_Result =
  content :: string
  has_pragma_once :: bool

text \<open>
  The two ways the program fails: a \<^verbatim>\<open>std::runtime_error\<close> with its message (lines 81
  and 100), and the \<^verbatim>\<open>assert\<close> of line 64.
\<close>

datatype error = Runtime_error string | Assertion_failure

text \<open>
  \<^verbatim>\<open>Working_Directory_File_Guard\<close> (lines 22 to 35): the stack is a member of the guard,
  empty when the constructor starts.
\<close>

record Working_Directory_File_Guard =
  working_directories :: "string list"

definition Working_Directory_File_Guard_ctor :: "platform \<Rightarrow> string \<Rightarrow> Working_Directory_File_Guard" where
  "Working_Directory_File_Guard_ctor P file =
     (let p = parent_path P file
      in \<lparr>working_directories = [generic_string P p]\<rparr>)"

definition Working_Directory_File_Guard_dtor :: "Working_Directory_File_Guard \<Rightarrow> Working_Directory_File_Guard" where
  "Working_Directory_File_Guard_dtor g = g\<lparr>working_directories := tl (working_directories g)\<rparr>"

section \<open>The functions of the program\<close>

definition strip_pragma_once :: "platform \<Rightarrow> string \<Rightarrow> string \<times> bool" where
  "strip_pragma_once P source =
     (let result = regex_replace (pragma_once_directive_re (anchors P)) [] None source
      in (result, length result \<noteq> length source))"

definition strip_block_comments :: "string \<Rightarrow> string" where
  "strip_block_comments source = regex_replace block_comment_re [] None source"

definition strip_line_comments :: "string \<Rightarrow> string" where
  "strip_line_comments source = regex_replace line_comment_re [] None source"

definition strip_comments :: "string \<Rightarrow> string" where
  "strip_comments source = strip_line_comments (strip_block_comments source)"

text \<open>
  \<^verbatim>\<open>runtime_path_from_include_path\<close> (lines 62 to 70). The path is constructed from a
  \<^verbatim>\<open>const char*\<close> into \<open>stripped_path\<close>, hence \<open>c_str\<close>.
\<close>

definition runtime_path_from_include_path :: "string \<Rightarrow> error + string" where
  "runtime_path_from_include_path path =
     (if \<not> 2 \<le> length path then Inl Assertion_failure
      else
        (let stripped_path = take (length path - 1) path;
             stripped_path = stripped_path[0 := CHR ''/''];
             first_pos = (if path ! 0 = CHR ''<'' then 0 else 1)
         in Inr (c_str (drop first_pos stripped_path))))"

definition slurp :: "file_system \<Rightarrow> string \<Rightarrow> error + string" where
  "slurp fs path =
     (case fs path of
        Some bytes \<Rightarrow> Inr bytes
      | None \<Rightarrow> Inl (Runtime_error (''Cannot load file: '' @ path)))"

text \<open>
  Lines 136 to 147: the name of the guard macro, from the generic string of the file's
  path.
\<close>

definition guard_macro :: "platform \<Rightarrow> string \<Rightarrow> string" where
  "guard_macro P path =
     (let path_safe = regex_replace non_identifier_re ''_'' None path;
          path_safe = take 128 path_safe;
          path_safe = regex_replace (underscore_at_ends_re (anchors P)) [] None path_safe;
          path_hash = hash_string P path
      in ''NAMA_INCLUDE_GUARD_'' @ path_safe @ ''_'' @ to_string path_hash)"

text \<open>Lines 149 to 161: the source between the three lines of the guard.\<close>

definition add_include_guard :: "string \<Rightarrow> string \<Rightarrow> string" where
  "add_include_guard guard old_source =
     (let source = ''#ifndef '' @ guard @ [CHR 0x0A] @ ''#define '' @ guard @ [CHR 0x0A] @ old_source;
          source = (if last source \<noteq> CHR 0x0A then source @ [CHR 0x0A] else source)
      in source @ ''#endif // '' @ guard @ [CHR 0x0A])"

text \<open>
  What a call of \<^verbatim>\<open>do_preprocess\<close> leaves behind: the result or the exception, and the
  session, which the caller passed by reference and which outlives an exception.
\<close>

type_synonym outcome = "(error + Preprocess_Result) \<times> Session"

text \<open>
  Lines 112 to 124, what one include directive expands to, with the recursive call of
  line 119 as the parameter \<open>recurse\<close>: resolve the payload, read the file, look its
  name up in \<open>should_skip\<close> and register it, recurse, and choose the replacement.
  \<open>None\<close> is the recursive call's: it did not return within its depth.
\<close>

definition expand_include ::
  "(Session \<Rightarrow> string \<Rightarrow> string \<Rightarrow> outcome option) \<Rightarrow> platform \<Rightarrow> file_system \<Rightarrow>
   Session \<Rightarrow> string \<Rightarrow> ((error + string) \<times> Session) option"
where
  "expand_include recurse P fs session include_path =
     (case runtime_path_from_include_path include_path of
        Inl e \<Rightarrow> Some (Inl e, session)
      | Inr runtime_path \<Rightarrow>
          (case slurp fs (generic_string P runtime_path) of
             Inl e \<Rightarrow> Some (Inl e, session)
           | Inr included_source \<Rightarrow>
               (let skip = (generic_string P runtime_path \<in> should_skip session);
                    session1 =
                      (if \<not> skip
                       then session\<lparr>should_skip :=
                              insert (generic_string P runtime_path) (should_skip session)\<rparr>
                       else session)
                in case recurse session1 runtime_path included_source of
                     None \<Rightarrow> None
                   | Some (Inl e, session2) \<Rightarrow> Some (Inl e, session2)
                   | Some (Inr included_result, session2) \<Rightarrow>
                       Some (Inr (if has_pragma_once included_result \<and> skip then []
                                  else content included_result),
                             session2))))"

text \<open>
  \<^verbatim>\<open>source.replace(match_pos, match_len, replacement)\<close> (line 128), for a match that lies
  in the source.
\<close>

definition string_replace :: "string \<Rightarrow> nat \<Rightarrow> nat \<Rightarrow> string \<Rightarrow> string" where
  "string_replace source match_pos match_len replacement =
     take match_pos source @ replacement @ drop (match_pos + match_len) source"

text \<open>
  The loop of lines 111 to 130: search the C string at \<open>pos\<close>, expand the directive
  found, splice the replacement in (lines 126 to 128) and move \<open>pos\<close> behind it
  (line 129).
\<close>

function include_loop ::
  "(Session \<Rightarrow> string \<Rightarrow> string \<Rightarrow> outcome option) \<Rightarrow> platform \<Rightarrow> file_system \<Rightarrow>
   Session \<Rightarrow> string \<Rightarrow> nat \<Rightarrow> ((error + string) \<times> Session) option"
where
  "include_loop recurse P fs session source pos =
     (case regex_search (c_str (drop pos source)) of
        None \<Rightarrow> Some (Inr source, session)
      | Some (off, match_len, include_path) \<Rightarrow>
          (case expand_include recurse P fs session include_path of
             None \<Rightarrow> None
           | Some (Inl e, session2) \<Rightarrow> Some (Inl e, session2)
           | Some (Inr replacement, session2) \<Rightarrow>
               (let match_pos = pos + off;
                    source' = string_replace source match_pos match_len replacement
                in include_loop recurse P fs session2 source' (match_pos + length replacement))))"
  by pat_completeness auto

text \<open>
  \<^verbatim>\<open>do_preprocess\<close> (lines 85 to 168). The first argument bounds the depth of the
  recursion, which the program does not: \<open>None\<close> says that the call needs a deeper
  stack than \<open>depth\<close>.
\<close>

primrec do_preprocess ::
  "nat \<Rightarrow> platform \<Rightarrow> file_system \<Rightarrow> Session \<Rightarrow> string \<Rightarrow> string \<Rightarrow> outcome option"
where
  "do_preprocess 0 P fs session filename source = None"
| "do_preprocess (Suc depth) P fs session filename source =
     (let wdfg = Working_Directory_File_Guard_ctor P filename;
          (source, has_once) = strip_pragma_once P source;
          returned =
            (if generic_string P filename \<in> visiting session then
               (if has_once
                then Some (Inr \<lparr>content = [], has_pragma_once = has_once\<rparr>, session)
                else Some (Inl (Runtime_error (''Cyclic inclusion: '' @ generic_string P filename)),
                           session))
             else
               (let session = session\<lparr>visiting := insert (generic_string P filename) (visiting session)\<rparr>;
                    source = strip_comments source
                in case include_loop (do_preprocess depth P fs) P fs session source 0 of
                     None \<Rightarrow> None
                   | Some (Inl e, session) \<Rightarrow> Some (Inl e, session)
                   | Some (Inr source, session) \<Rightarrow>
                       (let session = session\<lparr>visiting := visiting session - {generic_string P filename}\<rparr>;
                            source =
                              (if has_once
                               then add_include_guard (guard_macro P (generic_string P filename)) source
                               else source)
                        in Some (Inr \<lparr>content = source, has_pragma_once = has_once\<rparr>, session))));
          wdfg = Working_Directory_File_Guard_dtor wdfg
      in returned)"

text \<open>
  \<^verbatim>\<open>main\<close> (lines 170 to 178), up to the call of \<^verbatim>\<open>do_preprocess\<close>: the root file is
  \<^verbatim>\<open>a.glsl\<close> and the session starts empty.
\<close>

definition main :: "nat \<Rightarrow> platform \<Rightarrow> file_system \<Rightarrow> outcome option" where
  "main depth P fs =
     (case slurp fs ''a.glsl'' of
        Inl e \<Rightarrow> Some (Inl e, \<lparr>visiting = {}, should_skip = {}\<rparr>)
      | Inr source \<Rightarrow> do_preprocess depth P fs \<lparr>visiting = {}, should_skip = {}\<rparr> ''a.glsl'' source)"

text \<open>
  \<^verbatim>\<open>do_preprocess\<close> without line 87 (the guard is neither constructed nor destroyed), to
  compare the program with.
\<close>

primrec do_preprocess_unguarded ::
  "nat \<Rightarrow> platform \<Rightarrow> file_system \<Rightarrow> Session \<Rightarrow> string \<Rightarrow> string \<Rightarrow> outcome option"
where
  "do_preprocess_unguarded 0 P fs session filename source = None"
| "do_preprocess_unguarded (Suc depth) P fs session filename source =
     (let (source, has_once) = strip_pragma_once P source
      in if generic_string P filename \<in> visiting session then
           (if has_once
            then Some (Inr \<lparr>content = [], has_pragma_once = has_once\<rparr>, session)
            else Some (Inl (Runtime_error (''Cyclic inclusion: '' @ generic_string P filename)),
                       session))
         else
           (let session = session\<lparr>visiting := insert (generic_string P filename) (visiting session)\<rparr>;
                source = strip_comments source
            in case include_loop (do_preprocess_unguarded depth P fs) P fs session source 0 of
                 None \<Rightarrow> None
               | Some (Inl e, session) \<Rightarrow> Some (Inl e, session)
               | Some (Inr source, session) \<Rightarrow>
                   (let session = session\<lparr>visiting := visiting session - {generic_string P filename}\<rparr>;
                        source =
                          (if has_once
                           then add_include_guard (guard_macro P (generic_string P filename)) source
                           else source)
                    in Some (Inr \<lparr>content = source, has_pragma_once = has_once\<rparr>, session))))"

section \<open>The guard name, in the words of the specification\<close>



section \<open>Predicates of the statements\<close>

text \<open>
  How a call may leave the session: both sets only grow, and \<open>visiting\<close> is as it was
  unless the call ended with an exception.
\<close>

definition session_step :: "Session \<Rightarrow> error + 'a \<Rightarrow> Session \<Rightarrow> bool" where
  "session_step s out s' \<longleftrightarrow>
     visiting s \<subseteq> visiting s' \<and> should_skip s \<subseteq> should_skip s'
     \<and> (isl out \<or> visiting s' = visiting s)"

text \<open>
  The byte before position \<open>i\<close> of a buffer, and whether \<^verbatim>\<open>std::regex_replace\<close> finds a
  match of the pattern anywhere in the input.
\<close>

definition char_before :: "string \<Rightarrow> nat \<Rightarrow> char option" where
  "char_before s i = (if i = 0 then None else Some (s ! (i - 1)))"

fun found :: "regex \<Rightarrow> char option \<Rightarrow> string \<Rightarrow> bool" where
  "found re prev [] = False"
| "found re prev (c # cs) =
     (case re prev (c # cs) of
        None \<Rightarrow> found re (Some c) cs
      | Some 0 \<Rightarrow> found re (Some c) cs
      | Some (Suc n) \<Rightarrow> True)"




text \<open>
  A recursive call that is answered only where \<open>identity\<close> is in \<open>visiting\<close>: a loop
  that runs the same with it makes every recursive call while \<open>identity\<close> is in
  \<open>visiting\<close>.
\<close>

definition called_while_visiting ::
  "string \<Rightarrow> (Session \<Rightarrow> string \<Rightarrow> string \<Rightarrow> outcome option) \<Rightarrow>
   Session \<Rightarrow> string \<Rightarrow> string \<Rightarrow> outcome option"
where
  "called_while_visiting identity recurse session filename source =
     (if identity \<in> visiting session then recurse session filename source else None)"

text \<open>
  A platform to run the model on examples: the generic string of a path is its
  pathname (as for a POSIX pathname without repeated separators), and the length of a
  string stands in for its hash.
\<close>

definition reference_platform :: "anchoring \<Rightarrow> platform" where
  "reference_platform a =
     \<lparr>anchors = a, generic_string = (\<lambda>p. p), parent_path = (\<lambda>p. []),
      hash_string = (\<lambda>p. length p)\<rparr>"

section \<open>Termination of the loop\<close>

lemma take_literal_length: "take n s = lit \<Longrightarrow> length lit = n \<Longrightarrow> n \<le> length s"
  by (metis length_take min.cobounded1 min.commute)

lemma takeWhile_closed_length:
  "drop (length (takeWhile Q t)) t \<noteq> [] \<Longrightarrow> Suc (length (takeWhile Q t)) \<le> length t"
  by (simp add: Suc_le_eq)

lemma include_directive_re_bounds:
  assumes "include_directive_re s = Some (len, payload)"
  shows "0 < len \<and> len \<le> length s"
proof -
  from assms have pre: "take 8 s = ''#include''"
    by (simp add: include_directive_re_def split: if_splits)
  then have l8: "8 \<le> length s"
    by (rule take_literal_length) simp
  define r where "r = drop 8 s"
  define ws where "ws = takeWhile is_space r"
  define s1 where "s1 = dropWhile is_space r"
  have lr: "length s = 8 + length r"
    using l8 by (simp add: r_def)
  have lws: "length r = length ws + length s1"
    unfolding ws_def s1_def by (metis length_append takeWhile_dropWhile_id)
  have "s1 \<noteq> []"
  proof
    assume "s1 = []"
    with assms pre show False
      by (simp add: include_directive_re_def Let_def s1_def [symmetric] r_def [symmetric])
  qed
  then obtain d t where s1: "s1 = d # t"
    by (cases s1) auto
  from assms pre s1 have "0 < len \<and> len \<le> 8 + length ws + Suc (length t)"
    by (auto simp: include_directive_re_def Let_def s1_def [symmetric] r_def [symmetric]
          ws_def [symmetric] split: if_splits dest: takeWhile_closed_length)
  with lr lws s1 show ?thesis by simp
qed

lemma regex_search_bounds:
  "regex_search s = Some (off, len, payload) \<Longrightarrow> 0 < len \<and> off + len \<le> length s"
proof (induction s arbitrary: off)
  case Nil
  then show ?case by simp
next
  case (Cons c cs)
  show ?case
  proof (cases "include_directive_re (c # cs)")
    case None
    with Cons.prems obtain off' where "regex_search cs = Some (off', len, payload)" "off = Suc off'"
      by auto
    with Cons.IH show ?thesis by fastforce
  next
    case (Some m)
    with Cons.prems have "include_directive_re (c # cs) = Some (len, payload)" "off = 0"
      by (auto split: prod.splits)
    then show ?thesis using include_directive_re_bounds by fastforce
  qed
qed

lemma c_str_length: "length (c_str s) \<le> length s"
  by (simp add: c_str_def length_takeWhile_le)

lemma match_in_source:
  assumes "regex_search (c_str (drop pos source)) = Some (off, match_len, payload)"
  shows "0 < match_len \<and> pos + off + match_len \<le> length source"
proof -
  from regex_search_bounds [OF assms] c_str_length [of "drop pos source"]
  have "0 < match_len" "pos + off + match_len \<le> length source"
    by (simp, simp, linarith)
  then show ?thesis by simp
qed

termination include_loop
  by (relation "measure (\<lambda>(recurse, P, fs, session, source, pos). length source - pos)")
    (auto dest!: match_in_source simp: string_replace_def)

section \<open>Properties of \<^verbatim>\<open>std::regex_replace\<close>\<close>



lemma patterns_nonempty:
  "pragma_once_directive_re a p s \<noteq> Some 0" "block_comment_re p s \<noteq> Some 0"
  "line_comment_re p s \<noteq> Some 0" "non_identifier_re p s \<noteq> Some 0"
  "underscore_at_ends_re a p s \<noteq> Some 0"
proof -
  have "length (drop 4 (dropWhile is_space (drop 7 (dropWhile is_space s)))) < length s"
    if "take 7 (dropWhile is_space s) = ''#pragma''"
  proof -
    from that have "7 \<le> length (dropWhile is_space s)"
      by (rule take_literal_length) simp
    moreover have "length (dropWhile is_space s) \<le> length s"
      "length (dropWhile is_space (drop 7 (dropWhile is_space s))) \<le> length (drop 7 (dropWhile is_space s))"
      by (rule length_dropWhile_le)+
    ultimately show ?thesis by simp
  qed
  then show "pragma_once_directive_re a p s \<noteq> Some 0"
    by (auto simp: pragma_once_directive_re_def Let_def)
  show "block_comment_re p s \<noteq> Some 0" "line_comment_re p s \<noteq> Some 0"
    "non_identifier_re p s \<noteq> Some 0" "underscore_at_ends_re a p s \<noteq> Some 0"
    by (auto simp: block_comment_re_def line_comment_re_def non_identifier_re_def
        underscore_at_ends_re_def Let_def)
qed

lemma regex_replace_erase_length: "length (regex_replace re [] prev s) \<le> length s"
proof (induction re "[] :: string" prev s rule: regex_replace.induct)
  case (1 re prev)
  show ?case by simp
next
  case (2 re prev c cs)
  show ?case
  proof (cases "re prev (c # cs)")
    case None
    with 2 show ?thesis by simp
  next
    case (Some m)
    show ?thesis
    proof (cases m)
      case 0
      with 2 Some show ?thesis by simp
    next
      case (Suc n)
      with 2(3) [OF Some Suc] Some have "length (regex_replace re [] prev (c # cs)) \<le> length (drop n cs)"
        by simp
      then show ?thesis by simp
    qed
  qed
qed

lemma regex_replace_found:
  "found re prev s \<longleftrightarrow> length (regex_replace re [] prev s) \<noteq> length s"
proof (induction re prev s rule: found.induct)
  case (1 re prev)
  show ?case by simp
next
  case (2 re prev c cs)
  show ?case
  proof (cases "re prev (c # cs)")
    case None
    with 2 show ?thesis by simp
  next
    case (Some m)
    show ?thesis
    proof (cases m)
      case 0
      with 2 Some show ?thesis by simp
    next
      case (Suc n)
      have "length (regex_replace re [] (Some ((c # cs) ! n)) (drop n cs)) \<le> length (drop n cs)"
        by (rule regex_replace_erase_length)
      with Some Suc show ?thesis by simp
    qed
  qed
qed

lemma regex_replace_not_found:
  "\<not> found re prev s \<Longrightarrow> regex_replace re fmt prev s = s"
proof (induction re prev s rule: found.induct)
  case (1 re prev)
  show ?case by simp
next
  case (2 re prev c cs)
  then show ?case
    by (cases "re prev (c # cs)") (auto split: nat.splits)
qed

lemma found_iff:
  "found re prev s \<longleftrightarrow>
     (\<exists>i<length s. \<exists>n. re (if i = 0 then prev else Some (s ! (i - 1))) (drop i s) = Some (Suc n))"
proof (induction re prev s rule: found.induct)
  case (1 re prev)
  show ?case by simp
next
  case (2 re prev c cs)
  let ?at = "\<lambda>p s i. \<exists>n. re (if i = 0 then p else Some (s ! (i - 1))) (drop i s) = Some (Suc n)"
  have shift: "(\<exists>i<length (c # cs). ?at prev (c # cs) i)
     \<longleftrightarrow> ?at prev (c # cs) 0 \<or> (\<exists>i<length cs. ?at (Some c) cs i)"
  proof
    assume "\<exists>i<length (c # cs). ?at prev (c # cs) i"
    then obtain i where i: "i < length (c # cs)" "?at prev (c # cs) i" by blast
    show "?at prev (c # cs) 0 \<or> (\<exists>i<length cs. ?at (Some c) cs i)"
    proof (cases i)
      case 0
      with i show ?thesis by simp
    next
      case (Suc j)
      with i have "j < length cs" "?at (Some c) cs j"
        by (auto simp: nth_Cons split: nat.splits)
      then show ?thesis by blast
    qed
  next
    assume "?at prev (c # cs) 0 \<or> (\<exists>i<length cs. ?at (Some c) cs i)"
    then show "\<exists>i<length (c # cs). ?at prev (c # cs) i"
    proof
      assume "?at prev (c # cs) 0"
      then show ?thesis by (intro exI [of _ 0]) simp
    next
      assume "\<exists>i<length cs. ?at (Some c) cs i"
      then obtain j where "j < length cs" "?at (Some c) cs j" by blast
      then show ?thesis
        by (intro exI [of _ "Suc j"]) (auto simp: nth_Cons split: nat.splits)
    qed
  qed
  show ?case
  proof (cases "re prev (c # cs)")
    case None
    with 2 shift show ?thesis by simp
  next
    case (Some m)
    show ?thesis
    proof (cases m)
      case 0
      with 2 Some shift show ?thesis by simp
    next
      case (Suc n)
      with Some shift show ?thesis by simp
    qed
  qed
qed


lemma regex_replace_match:
  assumes "re prev s = Some (Suc n)" "s \<noteq> []"
  shows "regex_replace re fmt prev s = fmt @ regex_replace re fmt (Some (s ! n)) (drop (Suc n) s)"
  using assms by (cases s) simp_all

lemma regex_replace_skip:
  assumes "\<forall>i<length pre. \<forall>n. re (if i = 0 then prev else Some ((pre @ rest) ! (i - 1)))
              (drop i (pre @ rest)) \<noteq> Some (Suc n)"
  shows "regex_replace re fmt prev (pre @ rest)
         = pre @ regex_replace re fmt (if pre = [] then prev else Some (last pre)) rest"
  using assms
proof (induction pre arbitrary: prev)
  case Nil
  show ?case by simp
next
  case (Cons c pre)
  from Cons.prems [rule_format, of 0] have head: "\<And>n. re prev (c # pre @ rest) \<noteq> Some (Suc n)"
    by simp
  have "\<forall>i<length pre. \<forall>n. re (if i = 0 then Some c else Some ((pre @ rest) ! (i - 1)))
              (drop i (pre @ rest)) \<noteq> Some (Suc n)"
  proof (intro allI impI)
    fix i n
    assume "i < length pre"
    with Cons.prems [rule_format, of "Suc i" n]
    show "re (if i = 0 then Some c else Some ((pre @ rest) ! (i - 1))) (drop i (pre @ rest)) \<noteq> Some (Suc n)"
      by (cases i) simp_all
  qed
  then have IH: "regex_replace re fmt (Some c) (pre @ rest)
         = pre @ regex_replace re fmt (if pre = [] then Some c else Some (last pre)) rest"
    by (rule Cons.IH)
  have "regex_replace re fmt prev (c # pre @ rest) = c # regex_replace re fmt (Some c) (pre @ rest)"
    using head by (cases "re prev (c # pre @ rest)") (auto split: nat.splits)
  with IH show ?case by simp
qed

section \<open>The loop, one iteration at a time\<close>

lemma include_loop_done:
  "regex_search (c_str (drop pos source)) = None \<Longrightarrow>
     include_loop recurse P fs session source pos = Some (Inr source, session)"
  by simp

lemma include_loop_step:
  "regex_search (c_str (drop pos source)) = Some (off, match_len, payload) \<Longrightarrow>
     include_loop recurse P fs session source pos =
       (case expand_include recurse P fs session payload of
          None \<Rightarrow> None
        | Some (Inl e, session2) \<Rightarrow> Some (Inl e, session2)
        | Some (Inr replacement, session2) \<Rightarrow>
            include_loop recurse P fs session2 (string_replace source (pos + off) match_len replacement)
              (pos + off + length replacement))"
  by (simp add: Let_def split: option.splits sum.splits)

declare include_loop.simps [simp del]

lemma include_loop_induct [consumes 0, case_names loop]:
  assumes step: "\<And>session source pos.
      (\<And>off match_len payload replacement session2.
          regex_search (c_str (drop pos source)) = Some (off, match_len, payload) \<Longrightarrow>
          Q session2 (string_replace source (pos + off) match_len replacement) (pos + off + length replacement))
      \<Longrightarrow> Q session source pos"
  shows "Q session source pos"
proof (induction "length source - pos" arbitrary: session source pos rule: less_induct)
  case less
  show ?case
  proof (rule step)
    fix off match_len payload replacement session2
    assume m: "regex_search (c_str (drop pos source)) = Some (off, match_len, payload)"
    from match_in_source [OF m]
    have "length (string_replace source (pos + off) match_len replacement) - (pos + off + length replacement)
            < length source - pos"
      by (simp add: string_replace_def, arith)
    then show "Q session2 (string_replace source (pos + off) match_len replacement) (pos + off + length replacement)"
      by (rule less)
  qed
qed

section \<open>What a call does to the session\<close>

lemma session_step_trans:
  "session_step s (Inr a) s1 \<Longrightarrow> session_step s1 out s2 \<Longrightarrow> session_step s out s2"
  by (auto simp: session_step_def)

lemma expand_include_session:
  assumes R: "\<And>s f src out s'. recurse s f src = Some (out, s') \<Longrightarrow> session_step s out s'"
    and e: "expand_include recurse P fs s payload = Some (out, s')"
  shows "session_step s out s'"
proof (cases "runtime_path_from_include_path payload")
  case (Inl a)
  with e show ?thesis by (auto simp: expand_include_def session_step_def)
next
  case path: (Inr path)
  show ?thesis
  proof (cases "slurp fs (generic_string P path)")
    case (Inl a)
    with e path show ?thesis by (auto simp: expand_include_def session_step_def)
  next
    case src: (Inr src)
    define s1 where "s1 = (if generic_string P path \<notin> should_skip s
          then s\<lparr>should_skip := insert (generic_string P path) (should_skip s)\<rparr> else s)"
    from e path src obtain out1 where r: "recurse s1 path src = Some (out1, s')"
      and o: "isl out1 = isl out"
      by (auto simp: expand_include_def Let_def s1_def split: option.splits sum.splits)
    from R [OF r] o have "session_step s1 out s'"
      by (auto simp: session_step_def)
    moreover have "visiting s1 = visiting s" "should_skip s \<subseteq> should_skip s1"
      by (auto simp: s1_def)
    ultimately show ?thesis by (auto simp: session_step_def)
  qed
qed

lemma include_loop_session:
  assumes R: "\<And>s f src out s'. recurse s f src = Some (out, s') \<Longrightarrow> session_step s out s'"
  shows "include_loop recurse P fs s source pos = Some (out, s') \<Longrightarrow> session_step s out s'"
proof (induction s source pos rule: include_loop_induct)
  case (loop session source pos)
  show ?case
  proof (cases "regex_search (c_str (drop pos source))")
    case None
    with loop.prems show ?thesis
      by (simp add: include_loop_done session_step_def)
  next
    case (Some m)
    then obtain off match_len payload where
      m: "regex_search (c_str (drop pos source)) = Some (off, match_len, payload)"
      by (cases m) auto
    note unfold = loop.prems [unfolded include_loop_step [OF m]]
    show ?thesis
    proof (cases "expand_include recurse P fs session payload")
      case None
      with unfold show ?thesis by simp
    next
      case (Some r)
      obtain res session2 where r: "r = (res, session2)" by (cases r)
      from Some r have e: "expand_include recurse P fs session payload = Some (res, session2)"
        by simp
      have st: "session_step session res session2"
        using R e by (rule expand_include_session)
      show ?thesis
      proof (cases res)
        case (Inl err)
        with unfold e st show ?thesis by simp
      next
        case (Inr replacement)
        with unfold e have "include_loop recurse P fs session2
            (string_replace source (pos + off) match_len replacement) (pos + off + length replacement) = Some (out, s')"
          by simp
        with m have "session_step session2 out s'"
          by (rule loop.IH)
        with st Inr show ?thesis by (auto intro: session_step_trans)
      qed
    qed
  qed
qed

lemma do_preprocess_session:
  "do_preprocess depth P fs s filename source = Some (out, s') \<Longrightarrow> session_step s out s'"
proof (induction depth arbitrary: s filename source out s')
  case 0
  then show ?case by simp
next
  case (Suc depth)
  obtain src1 once where sp: "strip_pragma_once P source = (src1, once)"
    by (cases "strip_pragma_once P source")
  show ?case
  proof (cases "generic_string P filename \<in> visiting s")
    case True
    with Suc.prems show ?thesis
      by (auto simp: Let_def sp session_step_def split: if_splits)
  next
    case False
    define s1 where "s1 = s\<lparr>visiting := insert (generic_string P filename) (visiting s)\<rparr>"
    from Suc.prems False sp obtain res s2 where
      l: "include_loop (do_preprocess depth P fs) P fs s1 (strip_comments src1) 0 = Some (res, s2)"
      and o: "(\<exists>e. res = Inl e \<and> out = Inl e \<and> s' = s2)
            \<or> (\<exists>r c. res = Inr r \<and> out = Inr c \<and> s' = s2\<lparr>visiting := visiting s2 - {generic_string P filename}\<rparr>)"
      by (auto simp: Let_def s1_def split: option.splits sum.splits)
    have "session_step s1 res s2"
      using Suc.IH l by (rule include_loop_session)
    with o False show ?thesis
      by (auto simp: session_step_def s1_def)
  qed
qed


lemma do_preprocess_error_visiting:
  assumes "do_preprocess depth P fs s filename source = Some (Inl e, s')"
  shows "generic_string P filename \<in> visiting s'"
proof (cases depth)
  case 0
  with assms show ?thesis by simp
next
  case (Suc d)
  obtain src1 once where sp: "strip_pragma_once P source = (src1, once)"
    by (cases "strip_pragma_once P source")
  show ?thesis
  proof (cases "generic_string P filename \<in> visiting s")
    case True
    with assms Suc show ?thesis
      by (auto simp: Let_def sp split: if_splits)
  next
    case False
    define s1 where "s1 = s\<lparr>visiting := insert (generic_string P filename) (visiting s)\<rparr>"
    from assms Suc False sp have
      l: "include_loop (do_preprocess d P fs) P fs s1 (strip_comments src1) 0 = Some (Inl e, s')"
      by (auto simp: Let_def s1_def split: option.splits sum.splits)
    have "session_step s1 (Inl e :: error + string) s'"
      using do_preprocess_session l by (rule include_loop_session)
    then show ?thesis
      by (auto simp: session_step_def s1_def)
  qed
qed

lemma expand_include_while_visiting:
  assumes "identity \<in> visiting s"
  shows "expand_include (called_while_visiting identity recurse) P fs s payload
         = expand_include recurse P fs s payload"
  using assms
  by (simp add: expand_include_def called_while_visiting_def Let_def split: sum.splits)

lemma include_loop_while_visiting:
  assumes R: "\<And>s f src out s'. recurse s f src = Some (out, s') \<Longrightarrow> session_step s out s'"
  shows "identity \<in> visiting s \<Longrightarrow>
     include_loop (called_while_visiting identity recurse) P fs s source pos
     = include_loop recurse P fs s source pos"
proof (induction s source pos rule: include_loop_induct)
  case (loop session source pos)
  show ?case
  proof (cases "regex_search (c_str (drop pos source))")
    case None
    then show ?thesis by (simp add: include_loop_done)
  next
    case (Some m)
    then obtain off match_len payload where
      m: "regex_search (c_str (drop pos source)) = Some (off, match_len, payload)"
      by (cases m) auto
    show ?thesis
    proof (cases "expand_include recurse P fs session payload")
      case None
      with loop.prems show ?thesis
        by (simp add: include_loop_step [OF m] expand_include_while_visiting)
    next
      case (Some r)
      obtain res session2 where r: "r = (res, session2)" by (cases r)
      from Some r have e: "expand_include recurse P fs session payload = Some (res, session2)"
        by simp
      have st: "session_step session res session2"
        using R e by (rule expand_include_session)
      show ?thesis
      proof (cases res)
        case (Inl err)
        with e loop.prems show ?thesis
          by (simp add: include_loop_step [OF m] expand_include_while_visiting)
      next
        case (Inr replacement)
        with st loop.prems have "identity \<in> visiting session2"
          by (simp add: session_step_def)
        with m have "include_loop (called_while_visiting identity recurse) P fs session2
              (string_replace source (pos + off) match_len replacement) (pos + off + length replacement)
            = include_loop recurse P fs session2
              (string_replace source (pos + off) match_len replacement) (pos + off + length replacement)"
          by (rule loop.IH)
        with e Inr loop.prems show ?thesis
          by (simp add: include_loop_step [OF m] expand_include_while_visiting)
      qed
    qed
  qed
qed

section \<open>The depth bound\<close>

lemma expand_include_mono:
  assumes M: "\<And>s f src r. rec1 s f src = Some r \<Longrightarrow> rec2 s f src = Some r"
    and e: "expand_include rec1 P fs s payload = Some r"
  shows "expand_include rec2 P fs s payload = Some r"
proof (cases "runtime_path_from_include_path payload")
  case (Inl a)
  with e show ?thesis by (simp add: expand_include_def)
next
  case path: (Inr path)
  show ?thesis
  proof (cases "slurp fs (generic_string P path)")
    case (Inl a)
    with e path show ?thesis by (simp add: expand_include_def)
  next
    case src: (Inr src)
    define s1 where "s1 = (if generic_string P path \<notin> should_skip s
          then s\<lparr>should_skip := insert (generic_string P path) (should_skip s)\<rparr> else s)"
    from e path src obtain x where r1: "rec1 s1 path src = Some x"
      by (auto simp: expand_include_def Let_def s1_def split: option.splits)
    from M [OF r1] have r2: "rec2 s1 path src = Some x" .
    from e path src r1 r2 show ?thesis
      by (simp add: expand_include_def Let_def s1_def)
  qed
qed

lemma include_loop_mono:
  assumes M: "\<And>s f src r. rec1 s f src = Some r \<Longrightarrow> rec2 s f src = Some r"
  shows "include_loop rec1 P fs s source pos = Some r \<Longrightarrow> include_loop rec2 P fs s source pos = Some r"
proof (induction s source pos rule: include_loop_induct)
  case (loop session source pos)
  show ?case
  proof (cases "regex_search (c_str (drop pos source))")
    case None
    with loop.prems show ?thesis by (simp add: include_loop_done)
  next
    case (Some m)
    then obtain off match_len payload where
      m: "regex_search (c_str (drop pos source)) = Some (off, match_len, payload)"
      by (cases m) auto
    note unfold = loop.prems [unfolded include_loop_step [OF m]]
    from unfold obtain x where e1: "expand_include rec1 P fs session payload = Some x"
      by (auto split: option.splits)
    from M e1 have e2: "expand_include rec2 P fs session payload = Some x"
      by (rule expand_include_mono)
    obtain res session2 where x: "x = (res, session2)" by (cases x)
    show ?thesis
    proof (cases res)
      case (Inl err)
      with unfold e1 e2 x show ?thesis
        by (auto simp: include_loop_step [OF m])
    next
      case (Inr replacement)
      with unfold e1 x have "include_loop rec1 P fs session2
            (string_replace source (pos + off) match_len replacement) (pos + off + length replacement) = Some r"
        by simp
      with m have "include_loop rec2 P fs session2
            (string_replace source (pos + off) match_len replacement) (pos + off + length replacement) = Some r"
        by (rule loop.IH)
      with e2 x Inr show ?thesis
        by (simp add: include_loop_step [OF m])
    qed
  qed
qed

lemma do_preprocess_deeper:
  "do_preprocess depth P fs s filename source = Some r \<Longrightarrow>
     do_preprocess (Suc depth) P fs s filename source = Some r"
proof (induction depth arbitrary: s filename source r)
  case 0
  then show ?case by simp
next
  case (Suc depth)
  obtain src1 once where sp: "strip_pragma_once P source = (src1, once)"
    by (cases "strip_pragma_once P source")
  show ?case
  proof (cases "generic_string P filename \<in> visiting s")
    case True
    with Suc.prems show ?thesis
      by (simp add: Let_def sp)
  next
    case False
    let ?s1 = "s\<lparr>visiting := insert (generic_string P filename) (visiting s)\<rparr>"
    from Suc.prems False obtain x where
      l1: "include_loop (do_preprocess depth P fs) P fs ?s1 (strip_comments src1) 0 = Some x"
      by (auto simp: Let_def sp split: option.splits)
    have l2: "include_loop (do_preprocess (Suc depth) P fs) P fs ?s1 (strip_comments src1) 0 = Some x"
      using Suc.IH l1 by (rule include_loop_mono)
    have "do_preprocess (Suc (Suc depth)) P fs s filename source
        = do_preprocess (Suc depth) P fs s filename source"
      using False l1 l2 by (simp add: Let_def sp)
    with Suc.prems show ?thesis by simp
  qed
qed

lemma do_preprocess_le:
  assumes "do_preprocess depth P fs session filename source = Some r" "depth \<le> depth'"
  shows "do_preprocess depth' P fs session filename source = Some r"
proof -
  from assms(2) obtain k where "depth' = depth + k"
    using le_Suc_ex by blast
  moreover have "do_preprocess (depth + k) P fs session filename source = Some r"
  proof (induction k)
    case 0
    from assms(1) show ?case by simp
  next
    case (Suc k)
    from do_preprocess_deeper [OF Suc] show ?case by (simp del: do_preprocess.simps)
  qed
  ultimately show ?thesis by simp
qed

text \<open>
  The depth bound of the model decides only whether a call is followed to its end: a
  call that returns or throws within one depth does the same, with the same session,
  within every greater depth.
\<close>

theorem do_preprocess_depth:
  assumes "do_preprocess depth P fs session filename source = Some r" "depth \<le> depth'"
  shows "do_preprocess depth' P fs session filename source = Some r"
  using assms by (rule do_preprocess_le)

theorem do_preprocess_depth_witness:
  "do_preprocess 5 (reference_platform Input_only)
       [''a.glsl'' \<mapsto> ''#include \"b\"'', ''b'' \<mapsto> ''#pragma once\<newline>X'']
       \<lparr>visiting = {}, should_skip = {}\<rparr> ''a.glsl'' ''#include \"b\"''
     = Some (Inr \<lparr>content = ''#ifndef NAMA_INCLUDE_GUARD_b_1\<newline>#define NAMA_INCLUDE_GUARD_b_1\<newline>\<newline>X\<newline>#endif // NAMA_INCLUDE_GUARD_b_1\<newline>'',
                   has_pragma_once = False\<rparr>,
             \<lparr>visiting = {}, should_skip = {''b''}\<rparr>)"
proof -
  have run: "do_preprocess 2 (reference_platform Input_only)
       [''a.glsl'' \<mapsto> ''#include \"b\"'', ''b'' \<mapsto> ''#pragma once\<newline>X'']
       \<lparr>visiting = {}, should_skip = {}\<rparr> ''a.glsl'' ''#include \"b\"''
     = Some (Inr \<lparr>content = ''#ifndef NAMA_INCLUDE_GUARD_b_1\<newline>#define NAMA_INCLUDE_GUARD_b_1\<newline>\<newline>X\<newline>#endif // NAMA_INCLUDE_GUARD_b_1\<newline>'',
                   has_pragma_once = False\<rparr>,
             \<lparr>visiting = {}, should_skip = {''b''}\<rparr>)"
    by code_simp
  have le: "(2::nat) \<le> 5" by simp
  from do_preprocess_depth [OF run le] show ?thesis .
qed

section \<open>Every call ends\<close>

text \<open>
  The program bounds neither the depth of its recursion nor the number of files it
  reads. What ends a call is \<open>visiting\<close>: every call that enters its loop has added an
  identity that was not in the set, and every file it goes on to read was opened by
  \<^verbatim>\<open>slurp\<close> under the name that becomes its identity. So where only finitely many
  names can be opened, the calls in progress at any moment are at most one more than
  these names.
\<close>

lemma do_preprocess_unfold:
  assumes "generic_string P filename \<notin> visiting session"
  shows "do_preprocess (Suc depth) P fs session filename source =
     (case include_loop (do_preprocess depth P fs) P fs
              (session\<lparr>visiting := insert (generic_string P filename) (visiting session)\<rparr>)
              (strip_comments (fst (strip_pragma_once P source))) 0 of
        None \<Rightarrow> None
      | Some (Inl e, s2) \<Rightarrow> Some (Inl e, s2)
      | Some (Inr expanded, s2) \<Rightarrow>
          Some (Inr \<lparr>content =
                       (if snd (strip_pragma_once P source)
                        then add_include_guard (guard_macro P (generic_string P filename)) expanded
                        else expanded),
                     has_pragma_once = snd (strip_pragma_once P source)\<rparr>,
                s2\<lparr>visiting := visiting s2 - {generic_string P filename}\<rparr>))"
  using assms
  by (simp add: Let_def split: prod.splits option.splits sum.splits)

lemma do_preprocess_leaf:
  assumes v: "generic_string P filename \<notin> visiting session"
    and n: "regex_search (c_str (strip_comments (fst (strip_pragma_once P source)))) = None"
  shows "do_preprocess (Suc depth) P fs session filename source =
     Some (Inr \<lparr>content =
                  (if snd (strip_pragma_once P source)
                   then add_include_guard (guard_macro P (generic_string P filename))
                          (strip_comments (fst (strip_pragma_once P source)))
                   else strip_comments (fst (strip_pragma_once P source))),
                has_pragma_once = snd (strip_pragma_once P source)\<rparr>,
           session)"
proof -
  have "include_loop (do_preprocess depth P fs) P fs
          (session\<lparr>visiting := insert (generic_string P filename) (visiting session)\<rparr>)
          (strip_comments (fst (strip_pragma_once P source))) 0
        = Some (Inr (strip_comments (fst (strip_pragma_once P source))),
                session\<lparr>visiting := insert (generic_string P filename) (visiting session)\<rparr>)"
    using n by (intro include_loop_done) simp
  moreover from v have "insert (generic_string P filename) (visiting session) - {generic_string P filename}
      = visiting session"
    by auto
  ultimately show ?thesis
    unfolding do_preprocess_unfold [OF v] by simp
qed

lemma expand_include_returns:
  assumes R: "\<And>s' f src. visiting s' = visiting s \<Longrightarrow> generic_string P f \<in> dom fs \<Longrightarrow>
                recurse s' f src \<noteq> None"
  shows "expand_include recurse P fs s payload \<noteq> None"
proof (cases "runtime_path_from_include_path payload")
  case (Inl a)
  then show ?thesis by (simp add: expand_include_def)
next
  case path: (Inr path)
  show ?thesis
  proof (cases "fs (generic_string P path)")
    case None
    with path show ?thesis by (simp add: expand_include_def slurp_def)
  next
    case (Some src)
    define s1 where "s1 = (if generic_string P path \<notin> should_skip s
          then s\<lparr>should_skip := insert (generic_string P path) (should_skip s)\<rparr> else s)"
    have "visiting s1 = visiting s" by (simp add: s1_def)
    moreover from Some have "generic_string P path \<in> dom fs" by blast
    ultimately have "recurse s1 path src \<noteq> None" by (rule R)
    then obtain out s2 where "recurse s1 path src = Some (out, s2)"
      by (cases "recurse s1 path src") auto
    with path Some show ?thesis
      by (cases out) (simp_all add: expand_include_def slurp_def Let_def s1_def)
  qed
qed

lemma include_loop_returns:
  assumes R: "\<And>s f src. V \<subseteq> visiting s \<Longrightarrow> generic_string P f \<in> dom fs \<Longrightarrow> recurse s f src \<noteq> None"
    and S: "\<And>s f src out s'. recurse s f src = Some (out, s') \<Longrightarrow> session_step s out s'"
  shows "V \<subseteq> visiting s \<Longrightarrow> include_loop recurse P fs s source pos \<noteq> None"
proof (induction s source pos rule: include_loop_induct)
  case (loop session source pos)
  show ?case
  proof (cases "regex_search (c_str (drop pos source))")
    case None
    then show ?thesis by (simp add: include_loop_done)
  next
    case (Some m)
    then obtain off match_len payload where
      m: "regex_search (c_str (drop pos source)) = Some (off, match_len, payload)"
      by (cases m) auto
    have "expand_include recurse P fs session payload \<noteq> None"
    proof (rule expand_include_returns)
      fix s' :: Session and f src
      assume "visiting s' = visiting session" "generic_string P f \<in> dom fs"
      with loop.prems show "recurse s' f src \<noteq> None" by (intro R) simp_all
    qed
    then obtain res session2 where e: "expand_include recurse P fs session payload = Some (res, session2)"
      by (cases "expand_include recurse P fs session payload") auto
    have st: "session_step session res session2"
      using S e by (rule expand_include_session)
    show ?thesis
    proof (cases res)
      case (Inl err)
      with e show ?thesis by (simp add: include_loop_step [OF m])
    next
      case (Inr replacement)
      from st loop.prems have "V \<subseteq> visiting session2"
        by (auto simp: session_step_def)
      with m have "include_loop recurse P fs session2
            (string_replace source (pos + off) match_len replacement) (pos + off + length replacement) \<noteq> None"
        by (rule loop.IH)
      with e Inr show ?thesis by (simp add: include_loop_step [OF m])
    qed
  qed
qed

lemma do_preprocess_returns_aux:
  assumes fin: "finite (dom fs)"
  shows "card (dom fs - visiting s) \<le> n \<Longrightarrow>
         generic_string P f \<in> dom fs \<or> generic_string P f \<in> visiting s \<Longrightarrow>
         do_preprocess (Suc n) P fs s f src \<noteq> None"
proof (induction n arbitrary: s f src)
  case 0
  from fin have "finite (dom fs - visiting s)" by simp
  with 0(1) have "dom fs - visiting s = {}" by simp
  with 0(2) have "generic_string P f \<in> visiting s" by blast
  then show ?case by (simp add: Let_def split: prod.splits)
next
  case (Suc n)
  show ?case
  proof (cases "generic_string P f \<in> visiting s")
    case True
    then show ?thesis by (simp add: Let_def split: prod.splits)
  next
    case False
    with Suc.prems(2) have d: "generic_string P f \<in> dom fs - visiting s" by simp
    let ?s1 = "s\<lparr>visiting := insert (generic_string P f) (visiting s)\<rparr>"
    have rec: "do_preprocess (Suc n) P fs s' f' src' \<noteq> None"
      if v: "visiting ?s1 \<subseteq> visiting s'" and f': "generic_string P f' \<in> dom fs" for s' f' src'
    proof -
      from v have "dom fs - visiting s' \<subseteq> (dom fs - visiting s) - {generic_string P f}"
        by auto
      with fin have "card (dom fs - visiting s') \<le> card ((dom fs - visiting s) - {generic_string P f})"
        by (intro card_mono) auto
      also from d fin have "\<dots> = card (dom fs - visiting s) - 1"
        by (simp add: card_Diff_singleton)
      also from Suc.prems(1) have "\<dots> \<le> n" by simp
      finally show ?thesis using f' by (intro Suc.IH) simp_all
    qed
    have "include_loop (do_preprocess (Suc n) P fs) P fs ?s1
            (strip_comments (fst (strip_pragma_once P src))) 0 \<noteq> None"
    proof (rule include_loop_returns [where V = "visiting ?s1"])
      show "do_preprocess (Suc n) P fs s' f' src' \<noteq> None"
        if "visiting ?s1 \<subseteq> visiting s'" "generic_string P f' \<in> dom fs" for s' f' src'
        using that by (rule rec)
      show "session_step s' out s''"
        if "do_preprocess (Suc n) P fs s' f' src' = Some (out, s'')" for s' f' src' out s''
        using that by (rule do_preprocess_session)
      show "visiting ?s1 \<subseteq> visiting ?s1" ..
    qed
    then show ?thesis
      unfolding do_preprocess_unfold [OF False]
      by (auto split: option.splits sum.splits)
  qed
qed

lemma do_preprocess_returns:
  assumes fin: "finite (dom fs)"
  shows "do_preprocess (card (dom fs) + 2) P fs s f src \<noteq> None"
proof (cases "generic_string P f \<in> visiting s")
  case True
  then show ?thesis by (simp add: Let_def split: prod.splits)
next
  case False
  let ?s1 = "s\<lparr>visiting := insert (generic_string P f) (visiting s)\<rparr>"
  have rec: "do_preprocess (Suc (card (dom fs))) P fs s' f' src' \<noteq> None"
    if "generic_string P f' \<in> dom fs" for s' f' src'
  proof -
    from fin have "card (dom fs - visiting s') \<le> card (dom fs)"
      by (intro card_mono) auto
    with fin that show ?thesis by (intro do_preprocess_returns_aux) simp_all
  qed
  have "include_loop (do_preprocess (Suc (card (dom fs))) P fs) P fs ?s1
            (strip_comments (fst (strip_pragma_once P src))) 0 \<noteq> None"
  proof (rule include_loop_returns [where V = "{}"])
    show "do_preprocess (Suc (card (dom fs))) P fs s' f' src' \<noteq> None"
      if "generic_string P f' \<in> dom fs" for s' f' src'
      using that by (rule rec)
    show "session_step s' out s''"
      if "do_preprocess (Suc (card (dom fs))) P fs s' f' src' = Some (out, s'')" for s' f' src' out s''
      using that by (rule do_preprocess_session)
    show "{} \<subseteq> visiting ?s1" by simp
  qed
  moreover have "card (dom fs) + 2 = Suc (Suc (card (dom fs)))" by simp
  ultimately show ?thesis
    unfolding \<open>card (dom fs) + 2 = Suc (Suc (card (dom fs)))\<close> do_preprocess_unfold [OF False]
    by (auto split: option.splits sum.splits)
qed

lemma do_preprocess_total:
  assumes "finite (dom fs)" "card (dom fs) + 2 \<le> depth"
  shows "\<exists>out session'. do_preprocess depth P fs session filename source = Some (out, session')"
proof -
  from do_preprocess_returns [OF assms(1), of P session filename source]
  obtain out session' where
    "do_preprocess (card (dom fs) + 2) P fs session filename source = Some (out, session')"
    by (cases "do_preprocess (card (dom fs) + 2) P fs session filename source") auto
  from do_preprocess_le [OF this assms(2)] show ?thesis by blast
qed

text \<open>
  On a file system with finitely many names that can be opened, every call of
  \<^verbatim>\<open>do_preprocess\<close> ends, with a result or with an exception, and a stack of as many
  calls as there are such names, and two more, is deep enough for it.
\<close>

theorem do_preprocess_ends:
  assumes "finite (dom fs)" "card (dom fs) + 2 \<le> depth"
  shows "\<exists>out session'. do_preprocess depth P fs session filename source = Some (out, session')"
  using assms by (rule do_preprocess_total)

theorem do_preprocess_ends_witness:
  "\<exists>out session'.
     do_preprocess 4 (reference_platform Input_only)
       [''a.glsl'' \<mapsto> ''#include \"b\"'', ''b'' \<mapsto> ''#pragma once\<newline>#include \"a.glsl\"'']
       \<lparr>visiting = {}, should_skip = {}\<rparr> ''a.glsl'' ''#include \"b\"'' = Some (out, session')"
proof -
  let ?fs = "[''a.glsl'' \<mapsto> ''#include \"b\"'', ''b'' \<mapsto> ''#pragma once\<newline>#include \"a.glsl\"'']"
  have "finite (dom ?fs)" "card (dom ?fs) + 2 \<le> 4"
    by simp_all
  then show ?thesis by (rule do_preprocess_ends)
qed

section \<open>The platform in the loop\<close>

lemma expand_include_platform:
  assumes g: "generic_string P' = generic_string P"
  shows "expand_include recurse P' fs s payload = expand_include recurse P fs s payload"
  unfolding expand_include_def g ..

lemma include_loop_platform:
  assumes g: "generic_string P' = generic_string P"
  shows "include_loop recurse P' fs s source pos = include_loop recurse P fs s source pos"
proof (induction s source pos rule: include_loop_induct)
  case (loop session source pos)
  show ?case
  proof (cases "regex_search (c_str (drop pos source))")
    case None
    then show ?thesis by (simp add: include_loop_done)
  next
    case (Some m)
    then obtain off match_len payload where
      m: "regex_search (c_str (drop pos source)) = Some (off, match_len, payload)"
      by (cases m) auto
    show ?thesis
      by (simp add: include_loop_step [OF m] expand_include_platform [OF g] loop.IH [OF m]
            split: option.splits sum.splits)
  qed
qed

lemma do_preprocess_parent_path:
  "do_preprocess depth (P\<lparr>parent_path := pp\<rparr>) fs = do_preprocess depth P fs"
proof (induction depth)
  case 0
  show ?case by (intro ext) simp
next
  case (Suc depth)
  have l: "include_loop recurse (P\<lparr>parent_path := pp\<rparr>) fs s src pos = include_loop recurse P fs s src pos"
    for recurse s src pos
    by (rule include_loop_platform) simp
  show ?case
    by (intro ext)
      (simp add: Suc l strip_pragma_once_def guard_macro_def Let_def
         cong: option.case_cong sum.case_cong prod.case_cong if_cong)
qed


section \<open>Re-entering a file that is being expanded\<close>

text \<open>
  Claim C2. When \<^verbatim>\<open>do_preprocess\<close> is called for a file whose identity is already in
  \<open>visiting\<close>, it throws the cyclic-inclusion error that names the file exactly when the
  source given to it has no once-marker; when it has one, the call returns the empty
  content with \<open>has_pragma_once\<close> set. In both cases the session is as it was, and
  neither the file system nor the rest of the source is looked at.
\<close>

theorem do_preprocess_revisit:
  assumes "generic_string P filename \<in> visiting session"
  shows "do_preprocess (Suc depth) P fs session filename source =
           Some (if snd (strip_pragma_once P source)
                 then Inr \<lparr>content = [], has_pragma_once = True\<rparr>
                 else Inl (Runtime_error (''Cyclic inclusion: '' @ generic_string P filename)),
                 session)"
  using assms by (simp add: Let_def split: prod.splits)

theorem do_preprocess_revisit_witness:
  "do_preprocess (Suc 0) (reference_platform Input_only) Map.empty
       \<lparr>visiting = {''a.glsl''}, should_skip = {}\<rparr> ''a.glsl'' ''#pragma once\<newline>#include \"a.glsl\"''
     = Some (Inr \<lparr>content = [], has_pragma_once = True\<rparr>,
             \<lparr>visiting = {''a.glsl''}, should_skip = {}\<rparr>)
   \<and> do_preprocess (Suc 0) (reference_platform Input_only) Map.empty
       \<lparr>visiting = {''a.glsl''}, should_skip = {}\<rparr> ''a.glsl'' ''#include \"a.glsl\"''
     = Some (Inl (Runtime_error ''Cyclic inclusion: a.glsl''),
             \<lparr>visiting = {''a.glsl''}, should_skip = {}\<rparr>)"
proof -
  let ?P = "reference_platform Input_only"
  let ?s = "\<lparr>visiting = {''a.glsl''}, should_skip = {}\<rparr>"
  have v: "generic_string ?P ''a.glsl'' \<in> visiting ?s"
    by (simp add: reference_platform_def)
  have once: "snd (strip_pragma_once ?P ''#pragma once\<newline>#include \"a.glsl\"'')"
    by code_simp
  have plain: "\<not> snd (strip_pragma_once ?P ''#include \"a.glsl\"'')"
    by code_simp
  show ?thesis
    using do_preprocess_revisit [OF v, of 0 Map.empty "''#pragma once\<newline>#include \"a.glsl\"''"]
      do_preprocess_revisit [OF v, of 0 Map.empty "''#include \"a.glsl\"''"] once plain
    by (simp add: reference_platform_def)
qed

section \<open>The Path Resolver\<close>

lemma runtime_path_quoted:
  "runtime_path_from_include_path (CHR 0x22 # x @ [CHR 0x22]) = Inr (c_str x)"
  by (simp add: runtime_path_from_include_path_def)

lemma runtime_path_angle:
  "runtime_path_from_include_path (CHR ''<'' # x @ ''>'') = Inr (CHR ''/'' # c_str x)"
  by (simp add: runtime_path_from_include_path_def c_str_def)

text \<open>
  Claim C4, as stated, fails: the quoted and the angle spelling of \<^verbatim>\<open>b.glsl\<close> resolve to
  two pathnames, \<^verbatim>\<open>b.glsl\<close> and \<^verbatim>\<open>/b.glsl\<close>.
\<close>

theorem resolver_spellings_counterexample:
  "runtime_path_from_include_path ''\"b.glsl\"'' = Inr ''b.glsl''
   \<and> runtime_path_from_include_path ''<b.glsl>'' = Inr ''/b.glsl''
   \<and> runtime_path_from_include_path ''\"b.glsl\"'' \<noteq> runtime_path_from_include_path ''<b.glsl>''"
  by (simp add: runtime_path_from_include_path_def c_str_def)

text \<open>
  Claim C4, amended. The resolver drops the trailing delimiter, overwrites the leading
  one with a slash and reads the result as a C string from offset 1 for the quoted form
  and from offset 0 for the angle form. So a quoted payload resolves to its interior (cut
  at the first NUL byte), an angle payload to a slash followed by its interior: the two
  spellings of one interior never resolve to the same pathname, the angle one being the
  quoted one with a slash in front.
\<close>

theorem resolver_spellings:
  "runtime_path_from_include_path (CHR 0x22 # x @ [CHR 0x22]) = Inr (c_str x)
   \<and> runtime_path_from_include_path (CHR ''<'' # x @ ''>'') = Inr (CHR ''/'' # c_str x)
   \<and> runtime_path_from_include_path (CHR ''<'' # x @ ''>'')
       \<noteq> runtime_path_from_include_path (CHR 0x22 # x @ [CHR 0x22])"
  by (simp add: runtime_path_quoted runtime_path_angle)

section \<open>The payloads the scanner finds\<close>

lemma include_directive_re_payload:
  assumes "include_directive_re s = Some (len, payload)"
  shows "(\<exists>body. payload = CHR 0x22 # body @ [CHR 0x22] \<and> body \<noteq> [])
         \<or> (\<exists>body. payload = CHR ''<'' # body @ ''>'')"
  using assms
  by (auto simp: include_directive_re_def Let_def split: if_splits list.splits)

lemma regex_search_payload:
  "regex_search s = Some (off, len, payload) \<Longrightarrow>
     (\<exists>body. payload = CHR 0x22 # body @ [CHR 0x22] \<and> body \<noteq> [])
     \<or> (\<exists>body. payload = CHR ''<'' # body @ ''>'')"
proof (induction s arbitrary: off)
  case Nil
  then show ?case by simp
next
  case (Cons c cs)
  show ?case
  proof (cases "include_directive_re (c # cs)")
    case None
    with Cons.prems obtain off' where "regex_search cs = Some (off', len, payload)"
      by auto
    then show ?thesis by (rule Cons.IH)
  next
    case (Some m)
    with Cons.prems have "include_directive_re (c # cs) = Some (len, payload)"
      by (auto split: prod.splits)
    then show ?thesis by (rule include_directive_re_payload)
  qed
qed

lemma runtime_path_of_payload:
  assumes "regex_search s = Some (off, len, payload)"
  shows "\<exists>path. runtime_path_from_include_path payload = Inr path"
  using regex_search_payload [OF assms]
  by (auto simp: runtime_path_quoted runtime_path_angle)

lemma expand_include_no_assertion:
  assumes R: "\<And>s f src s'. recurse s f src \<noteq> Some (Inl Assertion_failure, s')"
    and p: "runtime_path_from_include_path payload = Inr path"
  shows "expand_include recurse P fs s payload \<noteq> Some (Inl Assertion_failure, s')"
proof (cases "slurp fs (generic_string P path)")
  case (Inl e)
  then obtain msg where "e = Runtime_error msg"
    by (auto simp: slurp_def split: option.splits)
  with Inl p show ?thesis
    by (simp add: expand_include_def)
next
  case (Inr src)
  with p R show ?thesis
    by (auto simp: expand_include_def Let_def split: option.splits sum.splits)
qed

lemma include_loop_no_assertion:
  assumes R: "\<And>s f src s'. recurse s f src \<noteq> Some (Inl Assertion_failure, s')"
  shows "include_loop recurse P fs s source pos \<noteq> Some (Inl Assertion_failure, s')"
proof (induction s source pos rule: include_loop_induct)
  case (loop session source pos)
  show ?case
  proof (cases "regex_search (c_str (drop pos source))")
    case None
    then show ?thesis by (simp add: include_loop_done)
  next
    case (Some m)
    then obtain off match_len payload where
      m: "regex_search (c_str (drop pos source)) = Some (off, match_len, payload)"
      by (cases m) auto
    from runtime_path_of_payload [OF m] obtain path where
      p: "runtime_path_from_include_path payload = Inr path" ..
    note e = expand_include_no_assertion [of recurse payload path P fs session, OF R p]
    show ?thesis
    proof (cases "expand_include recurse P fs session payload")
      case None
      then show ?thesis by (simp add: include_loop_step [OF m])
    next
      case (Some r)
      obtain res session2 where r: "r = (res, session2)" by (cases r)
      show ?thesis
      proof (cases res)
        case (Inl err)
        with Some r e [of session2] show ?thesis
          by (auto simp: include_loop_step [OF m])
      next
        case (Inr replacement)
        with Some r loop.IH [OF m, of session2 replacement] show ?thesis
          by (simp add: include_loop_step [OF m])
      qed
    qed
  qed
qed

lemma do_preprocess_no_assertion:
  "do_preprocess depth P fs s filename source \<noteq> Some (Inl Assertion_failure, s')"
proof (induction depth arbitrary: s filename source s')
  case 0
  show ?case by simp
next
  case (Suc depth)
  obtain src1 once where sp: "strip_pragma_once P source = (src1, once)"
    by (cases "strip_pragma_once P source")
  have l: "include_loop (do_preprocess depth P fs) P fs s1 src 0 \<noteq> Some (Inl Assertion_failure, s2)"
    for s1 src s2
    using Suc.IH by (rule include_loop_no_assertion)
  show ?case
    using l by (auto simp: Let_def sp split: option.splits sum.splits)
qed

text \<open>
  Claim C10. Every payload that the scanner of line 111 finds, and so every payload
  passed to \<^verbatim>\<open>runtime_path_from_include_path\<close>, has at least two bytes: a quoted payload
  has at least one byte between its quotes (three bytes or more), an angle payload may be
  \<^verbatim>\<open><>\<close> (two bytes). The assertion of line 64 therefore holds for it and the resolver
  returns a path; no call of \<^verbatim>\<open>do_preprocess\<close> ends with a failed assertion.
\<close>

theorem scanner_payload_length:
  assumes "regex_search s = Some (off, len, payload)"
  shows "2 \<le> length payload
         \<and> (hd payload = CHR 0x22 \<longrightarrow> 3 \<le> length payload)
         \<and> (hd payload = CHR 0x22 \<or> hd payload = CHR ''<'')
         \<and> runtime_path_from_include_path payload \<noteq> Inl Assertion_failure
         \<and> (\<exists>path. runtime_path_from_include_path payload = Inr path)
         \<and> do_preprocess depth P fs session filename source \<noteq> Some (Inl Assertion_failure, session')"
  using regex_search_payload [OF assms] do_preprocess_no_assertion [of depth P fs session filename source session']
  by (auto simp: runtime_path_quoted runtime_path_angle Suc_le_eq)

theorem scanner_payload_length_witness:
  "regex_search ''#include <>'' = Some (0, 11, ''<>'')
   \<and> length ''<>'' = 2
   \<and> runtime_path_from_include_path ''<>'' = Inr ''/''
   \<and> regex_search ''#include \"\"'' = None
   \<and> regex_search ''#include \"b\"'' = Some (0, 12, ''\"b\"'')
   \<and> 3 \<le> length ''\"b\"''
   \<and> runtime_path_from_include_path ''\"b\"'' = Inr ''b''"
proof -
  have a: "regex_search ''#include <>'' = Some (0, 11, ''<>'')"
    by code_simp
  have q: "regex_search ''#include \"b\"'' = Some (0, 12, ''\"b\"'')"
    by code_simp
  have e: "regex_search ''#include \"\"'' = None"
    by code_simp
  show ?thesis
    using scanner_payload_length [OF a] scanner_payload_length [OF q] a q e
    by (simp add: runtime_path_from_include_path_def c_str_def)
qed

section \<open>Membership in \<open>visiting\<close>\<close>

lemma do_preprocess_unfold_visiting:
  assumes v: "generic_string P filename \<notin> visiting session"
  shows "do_preprocess (Suc depth) P fs session filename source =
     (case include_loop (called_while_visiting (generic_string P filename) (do_preprocess depth P fs)) P fs
              (session\<lparr>visiting := insert (generic_string P filename) (visiting session)\<rparr>)
              (strip_comments (fst (strip_pragma_once P source))) 0 of
        None \<Rightarrow> None
      | Some (Inl e, s2) \<Rightarrow> Some (Inl e, s2)
      | Some (Inr expanded, s2) \<Rightarrow>
          Some (Inr \<lparr>content =
                       (if snd (strip_pragma_once P source)
                        then add_include_guard (guard_macro P (generic_string P filename)) expanded
                        else expanded),
                     has_pragma_once = snd (strip_pragma_once P source)\<rparr>,
                s2\<lparr>visiting := visiting s2 - {generic_string P filename}\<rparr>))"
proof -
  have m: "generic_string P filename
      \<in> visiting (session\<lparr>visiting := insert (generic_string P filename) (visiting session)\<rparr>)"
    by simp
  have l: "include_loop (called_while_visiting (generic_string P filename) (do_preprocess depth P fs)) P fs
              (session\<lparr>visiting := insert (generic_string P filename) (visiting session)\<rparr>)
              (strip_comments (fst (strip_pragma_once P source))) 0
        = include_loop (do_preprocess depth P fs) P fs
              (session\<lparr>visiting := insert (generic_string P filename) (visiting session)\<rparr>)
              (strip_comments (fst (strip_pragma_once P source))) 0"
    using do_preprocess_session m by (rule include_loop_while_visiting)
  show ?thesis
    unfolding do_preprocess_unfold [OF v] l ..
qed

lemma do_preprocess_visiting_after:
  assumes "do_preprocess depth P fs session filename source = Some (out, session')"
  shows "case out of
           Inr result \<Rightarrow> visiting session' = visiting session
         | Inl e \<Rightarrow> generic_string P filename \<in> visiting session'
                    \<and> visiting session \<subseteq> visiting session'"
proof -
  from assms have "session_step session out session'"
    by (rule do_preprocess_session)
  moreover have "generic_string P filename \<in> visiting session'" if "out = Inl e" for e
    using assms that by (auto intro: do_preprocess_error_visiting)
  ultimately show ?thesis
    by (auto simp: session_step_def split: sum.splits)
qed

text \<open>
  Claim C3, as stated, fails on the path of an exception: the root includes \<^verbatim>\<open>b\<close>, which
  includes a file that cannot be read. \<^verbatim>\<open>slurp\<close> throws, both calls are left by the
  exception, and the identities of both files are still in \<open>visiting\<close>.
\<close>

theorem visiting_scope_counterexample:
  "main 2 (reference_platform Input_only)
        [''a.glsl'' \<mapsto> ''#include \"b\"'', ''b'' \<mapsto> ''#include \"missing\"'']
     = Some (Inl (Runtime_error ''Cannot load file: missing''),
             \<lparr>visiting = {''a.glsl'', ''b''}, should_skip = {''b''}\<rparr>)"
  by code_simp

text \<open>
  Claim C3, amended. A call for a file that is not being expanded puts the identity of
  the file into \<open>visiting\<close> before its loop starts (line 103), and every recursive call
  that the loop makes finds it there: the call does what its loop does when the
  recursive call is answered only where the identity is in \<open>visiting\<close>. A call that
  returns leaves \<open>visiting\<close> as it found it: the identity added in line 103 has been
  removed in line 132, and the early return of line 94 leaves the entry of the outer call
  in place. A call that is left by an exception leaves the identity in \<open>visiting\<close>, and
  removes nothing from the set: line 132 is not reached, and no scope guard stands in for
  it. On a finite file system every call ends in one of the two ways.
\<close>

theorem visiting_scope:
  "(generic_string P filename \<notin> visiting session \<longrightarrow>
      do_preprocess (Suc depth) P fs session filename source =
        (case include_loop (called_while_visiting (generic_string P filename) (do_preprocess depth P fs))
                 P fs (session\<lparr>visiting := insert (generic_string P filename) (visiting session)\<rparr>)
                 (strip_comments (fst (strip_pragma_once P source))) 0 of
           None \<Rightarrow> None
         | Some (Inl e, s2) \<Rightarrow> Some (Inl e, s2)
         | Some (Inr expanded, s2) \<Rightarrow>
             Some (Inr \<lparr>content =
                          (if snd (strip_pragma_once P source)
                           then add_include_guard (guard_macro P (generic_string P filename)) expanded
                           else expanded),
                        has_pragma_once = snd (strip_pragma_once P source)\<rparr>,
                   s2\<lparr>visiting := visiting s2 - {generic_string P filename}\<rparr>)))
   \<and> (do_preprocess depth P fs session filename source = Some (out, session') \<longrightarrow>
        (case out of
           Inr result \<Rightarrow> visiting session' = visiting session
         | Inl e \<Rightarrow> generic_string P filename \<in> visiting session'
                    \<and> visiting session \<subseteq> visiting session'))
   \<and> (finite (dom fs) \<and> card (dom fs) + 2 \<le> depth \<longrightarrow>
        (\<exists>out session'. do_preprocess depth P fs session filename source = Some (out, session')))"
proof (intro conjI impI; (elim conjE)?)
  show "do_preprocess (Suc depth) P fs session filename source =
        (case include_loop (called_while_visiting (generic_string P filename) (do_preprocess depth P fs))
                 P fs (session\<lparr>visiting := insert (generic_string P filename) (visiting session)\<rparr>)
                 (strip_comments (fst (strip_pragma_once P source))) 0 of
           None \<Rightarrow> None
         | Some (Inl e, s2) \<Rightarrow> Some (Inl e, s2)
         | Some (Inr expanded, s2) \<Rightarrow>
             Some (Inr \<lparr>content =
                          (if snd (strip_pragma_once P source)
                           then add_include_guard (guard_macro P (generic_string P filename)) expanded
                           else expanded),
                        has_pragma_once = snd (strip_pragma_once P source)\<rparr>,
                   s2\<lparr>visiting := visiting s2 - {generic_string P filename}\<rparr>))"
    if "generic_string P filename \<notin> visiting session"
    using that by (rule do_preprocess_unfold_visiting)
  show "case out of
           Inr result \<Rightarrow> visiting session' = visiting session
         | Inl e \<Rightarrow> generic_string P filename \<in> visiting session'
                    \<and> visiting session \<subseteq> visiting session'"
    if "do_preprocess depth P fs session filename source = Some (out, session')"
    using that by (rule do_preprocess_visiting_after)
  show "\<exists>out session'. do_preprocess depth P fs session filename source = Some (out, session')"
    if "finite (dom fs)" "card (dom fs) + 2 \<le> depth"
    using that by (rule do_preprocess_total)
qed

theorem visiting_scope_witness:
  "do_preprocess (Suc 2) (reference_platform Input_only)
       [''a.glsl'' \<mapsto> ''#include \"b\"'', ''b'' \<mapsto> ''#include \"a.glsl\"'']
       \<lparr>visiting = {}, should_skip = {}\<rparr> ''a.glsl'' ''#include \"b\"''
     = Some (Inl (Runtime_error ''Cyclic inclusion: a.glsl''),
             \<lparr>visiting = {''a.glsl'', ''b''}, should_skip = {''a.glsl'', ''b''}\<rparr>)
   \<and> ''b'' \<in> visiting \<lparr>visiting = {''a.glsl'', ''b''}, should_skip = {''b''}\<rparr>
   \<and> visiting \<lparr>visiting = {''a.glsl''}, should_skip = {''b''}\<rparr>
       \<subseteq> visiting \<lparr>visiting = {''a.glsl'', ''b''}, should_skip = {''b''}\<rparr>
   \<and> visiting \<lparr>visiting = {}, should_skip = {''b''}\<rparr> = visiting \<lparr>visiting = {}, should_skip = {}\<rparr>
   \<and> (\<exists>out session'.
         do_preprocess 4 (reference_platform Input_only)
           [''a.glsl'' \<mapsto> ''#include \"b\"'', ''b'' \<mapsto> ''#include \"a.glsl\"'']
           \<lparr>visiting = {}, should_skip = {}\<rparr> ''a.glsl'' ''#include \"b\"'' = Some (out, session'))"
proof -
  let ?P = "reference_platform Input_only"
  let ?fs = "[''a.glsl'' \<mapsto> ''#include \"b\"'', ''b'' \<mapsto> ''#include \"a.glsl\"'']"
  let ?fs' = "[''a.glsl'' \<mapsto> ''#include \"b\"'', ''b'' \<mapsto> ''#pragma once\<newline>X'']"
  let ?s = "\<lparr>visiting = {}, should_skip = {}\<rparr>"
  have g: "generic_string ?P ''a.glsl'' = ''a.glsl''" "generic_string ?P ''b'' = ''b''"
    by (simp_all add: reference_platform_def)
  have v: "generic_string ?P ''a.glsl'' \<notin> visiting ?s"
    by simp
  have loop: "(case include_loop (called_while_visiting (generic_string ?P ''a.glsl'') (do_preprocess 2 ?P ?fs))
                 ?P ?fs (?s\<lparr>visiting := insert (generic_string ?P ''a.glsl'') (visiting ?s)\<rparr>)
                 (strip_comments (fst (strip_pragma_once ?P ''#include \"b\"''))) 0 of
           None \<Rightarrow> None
         | Some (Inl e, s2) \<Rightarrow> Some (Inl e, s2)
         | Some (Inr expanded, s2) \<Rightarrow>
             Some (Inr \<lparr>content =
                          (if snd (strip_pragma_once ?P ''#include \"b\"'')
                           then add_include_guard (guard_macro ?P (generic_string ?P ''a.glsl'')) expanded
                           else expanded),
                        has_pragma_once = snd (strip_pragma_once ?P ''#include \"b\"'')\<rparr>,
                   s2\<lparr>visiting := visiting s2 - {generic_string ?P ''a.glsl''}\<rparr>))
      = Some (Inl (Runtime_error ''Cyclic inclusion: a.glsl''),
             \<lparr>visiting = {''a.glsl'', ''b''}, should_skip = {''a.glsl'', ''b''}\<rparr>)"
    by code_simp
  have run: "do_preprocess 2 ?P ?fs' ?s ''a.glsl'' ''#include \"b\"''
      = Some (Inr \<lparr>content = ''#ifndef NAMA_INCLUDE_GUARD_b_1\<newline>#define NAMA_INCLUDE_GUARD_b_1\<newline>\<newline>X\<newline>#endif // NAMA_INCLUDE_GUARD_b_1\<newline>'',
                    has_pragma_once = False\<rparr>,
              \<lparr>visiting = {}, should_skip = {''b''}\<rparr>)"
    by code_simp
  have failing: "do_preprocess 1 ?P Map.empty \<lparr>visiting = {''a.glsl''}, should_skip = {''b''}\<rparr>
        ''b'' ''#include \"missing\"''
      = Some (Inl (Runtime_error ''Cannot load file: missing''),
              \<lparr>visiting = {''a.glsl'', ''b''}, should_skip = {''b''}\<rparr>)"
    by code_simp
  have fin: "finite (dom ?fs)" "card (dom ?fs) + 2 \<le> 4"
    by simp_all
  note t = visiting_scope [where P = ?P and fs = ?fs and session = ?s and filename = "''a.glsl''"
      and source = "''#include \"b\"''"]
  from t [where depth = 2] v have a: "do_preprocess (Suc 2) ?P ?fs ?s ''a.glsl'' ''#include \"b\"''
     = Some (Inl (Runtime_error ''Cyclic inclusion: a.glsl''),
             \<lparr>visiting = {''a.glsl'', ''b''}, should_skip = {''a.glsl'', ''b''}\<rparr>)"
    unfolding loop [symmetric] by blast
  from visiting_scope [where P = ?P and depth = 1 and fs = Map.empty
      and session = "\<lparr>visiting = {''a.glsl''}, should_skip = {''b''}\<rparr>" and filename = "''b''"
      and source = "''#include \"missing\"''" and out = "Inl (Runtime_error ''Cannot load file: missing'')"
      and session' = "\<lparr>visiting = {''a.glsl'', ''b''}, should_skip = {''b''}\<rparr>"] failing
  have b: "''b'' \<in> visiting \<lparr>visiting = {''a.glsl'', ''b''}, should_skip = {''b''}\<rparr>
     \<and> visiting \<lparr>visiting = {''a.glsl''}, should_skip = {''b''}\<rparr>
       \<subseteq> visiting \<lparr>visiting = {''a.glsl'', ''b''}, should_skip = {''b''}\<rparr>"
    unfolding g by (simp del: do_preprocess.simps)
  from visiting_scope [where P = ?P and depth = 2 and fs = ?fs' and session = ?s and filename = "''a.glsl''"
      and source = "''#include \"b\"''" and session' = "\<lparr>visiting = {}, should_skip = {''b''}\<rparr>"
      and out = "Inr \<lparr>content = ''#ifndef NAMA_INCLUDE_GUARD_b_1\<newline>#define NAMA_INCLUDE_GUARD_b_1\<newline>\<newline>X\<newline>#endif // NAMA_INCLUDE_GUARD_b_1\<newline>'',
                    has_pragma_once = False\<rparr>"] run
  have c: "visiting \<lparr>visiting = {}, should_skip = {''b''}\<rparr> = visiting \<lparr>visiting = {}, should_skip = {}\<rparr>"
    by (simp del: do_preprocess.simps)
  from t [where depth = 4] fin
  have d: "\<exists>out session'. do_preprocess 4 ?P ?fs ?s ''a.glsl'' ''#include \"b\"'' = Some (out, session')"
    by blast
  from a b c d show ?thesis by blast
qed

section \<open>The working-directory guard\<close>

lemma do_preprocess_unguarded_eq:
  "do_preprocess_unguarded depth P fs = do_preprocess depth P fs"
proof (induction depth)
  case 0
  show ?case by (intro ext) simp
next
  case (Suc depth)
  show ?case
    by (intro ext) (simp add: Suc Let_def cong: prod.case_cong if_cong)
qed

text \<open>
  Claim C9. The guard of line 87 pushes the parent directory of the file onto a stack of
  its own, empty at its construction and popped at its destruction. What the call
  returns and what it does to the session does not depend on the directory pushed
  (whatever \<^verbatim>\<open>parent_path\<close> computes), and is what the function returns without line 87.
\<close>

theorem working_directory_guard_inert:
  "do_preprocess depth (P\<lparr>parent_path := pp\<rparr>) fs session filename source
     = do_preprocess depth P fs session filename source
   \<and> do_preprocess_unguarded depth P fs session filename source
     = do_preprocess depth P fs session filename source
   \<and> working_directories (Working_Directory_File_Guard_ctor P filename)
     = [generic_string P (parent_path P filename)]
   \<and> working_directories
       (Working_Directory_File_Guard_dtor (Working_Directory_File_Guard_ctor P filename)) = []"
  by (simp add: do_preprocess_parent_path do_preprocess_unguarded_eq
      Working_Directory_File_Guard_ctor_def Working_Directory_File_Guard_dtor_def)

section \<open>Occurrences of a once-marked file\<close>


lemma do_preprocess_result:
  assumes "do_preprocess depth P fs s filename source = Some (Inr res, s')"
  shows "has_pragma_once res = snd (strip_pragma_once P source)
         \<and> (if generic_string P filename \<in> visiting s then content res = []
            else has_pragma_once res \<longrightarrow>
              (\<exists>body. content res = add_include_guard (guard_macro P (generic_string P filename)) body))"
proof (cases depth)
  case 0
  with assms show ?thesis by simp
next
  case (Suc d)
  obtain src1 once where sp: "strip_pragma_once P source = (src1, once)"
    by (cases "strip_pragma_once P source")
  show ?thesis
  proof (cases "generic_string P filename \<in> visiting s")
    case True
    with assms show ?thesis
      unfolding Suc by (auto simp: Let_def sp split: if_splits)
  next
    case False
    with assms obtain expanded where
      "res = \<lparr>content = (if once
                 then add_include_guard (guard_macro P (generic_string P filename)) expanded
                 else expanded),
               has_pragma_once = once\<rparr>"
      unfolding Suc by (auto simp: Let_def sp split: option.splits sum.splits)
    with False show ?thesis
      by (auto simp: sp)
  qed
qed






section \<open>The Once-Marker Normalizer\<close>

lemma dropWhile_all: "\<forall>c\<in>set ws. Q c \<Longrightarrow> \<not> Q d \<Longrightarrow> dropWhile Q (ws @ d # t) = d # t"
  by (simp add: dropWhile_append3)

lemma takeWhile_all: "\<forall>c\<in>set ws. Q c \<Longrightarrow> \<not> Q d \<Longrightarrow> takeWhile Q (ws @ d # t) = ws"
  by (simp add: takeWhile_append2) 

lemma hash_not_space: "\<not> is_space CHR ''#''" and o_not_space: "\<not> is_space CHR ''o''"
  by (simp_all add: is_space_def)

lemma pragma_once_shape:
  assumes bol: "at_bol anc prev"
    and ws: "\<forall>c\<in>set ws. is_space c"
    and ws': "ws' \<noteq> []" "\<forall>c\<in>set ws'. is_space c"
    and post: "post = [] \<or> \<not> is_word (hd post)"
  shows "pragma_once_directive_re anc prev (ws @ ''#pragma'' @ ws' @ ''once'' @ post)
         = Some (length ws + 7 + length ws' + 4)"
proof -
  have s1: "dropWhile is_space (ws @ ''#pragma'' @ ws' @ ''once'' @ post) = ''#pragma'' @ ws' @ ''once'' @ post"
    using dropWhile_all [OF ws hash_not_space] by simp
  have s3: "dropWhile is_space (ws' @ ''once'' @ post) = ''once'' @ post"
    using dropWhile_all [OF ws'(2) o_not_space] by simp
  from ws' have hd: "is_space (hd (ws' @ ''once'' @ post))"
    by (cases ws') simp_all
  from post have b: "(case post of [] \<Rightarrow> True | d # _ \<Rightarrow> \<not> is_word d)"
    by (cases post) simp_all
  have t7: "take 7 (''#pragma'' @ ws' @ ''once'' @ post) = ''#pragma''"
    and d7: "drop 7 (''#pragma'' @ ws' @ ''once'' @ post) = ws' @ ''once'' @ post"
    and t4: "take 4 (''once'' @ post) = ''once''"
    and d4: "drop 4 (''once'' @ post) = post"
    by simp_all
  from ws' have n: "ws' @ ''once'' @ post \<noteq> []"
    by simp
  show ?thesis
    unfolding pragma_once_directive_re_def Let_def s1 t7 d7 s3 t4 d4
    using bol hd b n by simp
qed

lemma pragma_once_match:
  assumes "pragma_once_directive_re anc prev s = Some k"
  shows "\<exists>ws ws' post. s = ws @ ''#pragma'' @ ws' @ ''once'' @ post
           \<and> (\<forall>c\<in>set ws. is_space c) \<and> ws' \<noteq> [] \<and> (\<forall>c\<in>set ws'. is_space c)
           \<and> (post = [] \<or> \<not> is_word (hd post)) \<and> at_bol anc prev
           \<and> k = length ws + 7 + length ws' + 4"
proof -
  define ws where "ws = takeWhile is_space s"
  define s1 where "s1 = dropWhile is_space s"
  define s2 where "s2 = drop 7 s1"
  define ws' where "ws' = takeWhile is_space s2"
  define s3 where "s3 = dropWhile is_space s2"
  define post where "post = drop 4 s3"
  from assms have bol: "at_bol anc prev" and p7: "take 7 s1 = ''#pragma''"
    and ne: "s2 \<noteq> []" "is_space (hd s2)" and p4: "take 4 s3 = ''once''"
    and b: "(case post of [] \<Rightarrow> True | d # _ \<Rightarrow> \<not> is_word d)"
    and k: "k = length s - length post"
    unfolding pragma_once_directive_re_def Let_def s1_def [symmetric] s2_def [symmetric]
      s3_def [symmetric] post_def [symmetric]
    by (auto split: if_splits)
  have e0: "s = ws @ s1" by (simp add: ws_def s1_def)
  have e1: "s1 = ''#pragma'' @ s2"
    using p7 append_take_drop_id [of 7 s1] by (simp add: s2_def)
  have e2: "s2 = ws' @ s3" by (simp add: ws'_def s3_def)
  have e3: "s3 = ''once'' @ post"
    using p4 append_take_drop_id [of 4 s3] by (simp add: post_def)
  have w: "\<forall>c\<in>set ws. is_space c" "\<forall>c\<in>set ws'. is_space c"
    by (auto simp: ws_def ws'_def dest: set_takeWhileD)
  from ne have w': "ws' \<noteq> []"
    by (cases s2) (simp_all add: ws'_def)
  from b have p: "post = [] \<or> \<not> is_word (hd post)"
    by (cases post) simp_all
  have s: "s = ws @ ''#pragma'' @ ws' @ ''once'' @ post"
    using e0 e1 e2 e3 by simp
  have "k = length ws + 7 + length ws' + 4"
    unfolding k by (subst s) simp
  with s w w' p bol show ?thesis by blast
qed

lemma pragma_once_last:
  assumes "pragma_once_directive_re anc prev s = Some (Suc n)"
  shows "s ! n = CHR ''e''"
proof -
  from pragma_once_match [OF assms] obtain ws ws' post where
    s: "s = ws @ ''#pragma'' @ ws' @ ''once'' @ post" and n: "Suc n = length ws + 7 + length ws' + 4"
    by blast
  have "s = (ws @ ''#pragma'' @ ws' @ ''onc'') @ CHR ''e'' # post"
    by (simp add: s)
  moreover from n have "n = length (ws @ ''#pragma'' @ ws' @ ''onc'')"
    by simp
  ultimately show ?thesis
    by (metis nth_append_length)
qed

lemma pragma_once_not_bol: "\<not> at_bol anc prev \<Longrightarrow> pragma_once_directive_re anc prev s = None"
  by (simp add: pragma_once_directive_re_def)

lemma pragma_once_iso_rest: "\<not> found (pragma_once_directive_re Input_only) (Some c) s"
proof (induction s arbitrary: c)
  case Nil
  show ?case by simp
next
  case (Cons a s)
  have "pragma_once_directive_re Input_only (Some c) (a # s) = None"
    by (rule pragma_once_not_bol) (simp add: at_bol_def line_anchor_def)
  with Cons show ?case by simp
qed

lemma pragma_once_iso:
  "regex_replace (pragma_once_directive_re Input_only) [] None s
   = (case pragma_once_directive_re Input_only None s of None \<Rightarrow> s | Some k \<Rightarrow> drop k s)"
proof (cases s)
  case Nil
  then show ?thesis by (simp split: option.splits)
next
  case (Cons c cs)
  show ?thesis
  proof (cases "pragma_once_directive_re Input_only None s")
    case None
    with Cons show ?thesis
      by (simp add: regex_replace_not_found [OF pragma_once_iso_rest])
  next
    case (Some k)
    with Cons show ?thesis
      by (cases k) (simp_all add: regex_replace_not_found [OF pragma_once_iso_rest])
  qed
qed


lemma char_before_end: "char_before (pre @ rest) (length pre) = (if pre = [] then None else Some (last pre))"
  by (cases pre rule: rev_cases) (simp_all add: char_before_def nth_append)

lemma strip_pragma_once_found:
  "snd (strip_pragma_once P source) \<longleftrightarrow> found (pragma_once_directive_re (anchors P)) None source"
  by (simp add: strip_pragma_once_def Let_def regex_replace_found)

lemma strip_pragma_once_changed:
  "snd (strip_pragma_once P source) \<longleftrightarrow> fst (strip_pragma_once P source) \<noteq> source"
proof -
  have "regex_replace (pragma_once_directive_re (anchors P)) [] None source = source"
    if "\<not> found (pragma_once_directive_re (anchors P)) None source"
    using that by (rule regex_replace_not_found)
  then show ?thesis
    by (auto simp: strip_pragma_once_def Let_def regex_replace_found)
qed

lemma strip_pragma_once_leftmost:
  assumes none: "\<forall>i<length pre. pragma_once_directive_re (anchors P) (char_before (pre @ rest) i)
                    (drop i (pre @ rest)) = None"
    and m: "pragma_once_directive_re (anchors P) (char_before (pre @ rest) (length pre)) rest = Some k"
  shows "fst (strip_pragma_once P (pre @ rest))
         = pre @ regex_replace (pragma_once_directive_re (anchors P)) [] (Some CHR ''e'') (drop k rest)"
proof -
  let ?re = "pragma_once_directive_re (anchors P)"
  from pragma_once_match [OF m] obtain n where k: "k = Suc n" and rest: "rest \<noteq> []"
    by (cases k) auto
  from none have "\<forall>i<length pre. \<forall>n. ?re (if i = 0 then None else Some ((pre @ rest) ! (i - 1)))
              (drop i (pre @ rest)) \<noteq> Some (Suc n)"
    by (simp add: char_before_def)
  then have "regex_replace ?re [] None (pre @ rest)
         = pre @ regex_replace ?re [] (if pre = [] then None else Some (last pre)) rest"
    by (rule regex_replace_skip)
  also have "regex_replace ?re [] (if pre = [] then None else Some (last pre)) rest
         = [] @ regex_replace ?re [] (Some (rest ! n)) (drop (Suc n) rest)"
    using m rest unfolding k char_before_end by (rule regex_replace_match)
  also have "rest ! n = CHR ''e''"
    using m unfolding k by (rule pragma_once_last)
  finally show ?thesis
    by (simp add: strip_pragma_once_def Let_def k)
qed

text \<open>
  Claim C5, as stated, fails where the engine anchors \<^verbatim>\<open>^\<close> as ISO C++ says for a
  \<^verbatim>\<open>std::regex\<close> without the multiline flag: a marker at the start of the second line is
  neither removed nor reported.
\<close>

theorem once_marker_normalizer_counterexample:
  "strip_pragma_once (reference_platform Input_only) ''// license\<newline>#pragma once\<newline>X''
     = (''// license\<newline>#pragma once\<newline>X'', False)"
  by code_simp

text \<open>
  Claim C5, amended. The normalizer removes the occurrences of the once-marker that
  \<^verbatim>\<open>std::regex_replace\<close> finds from left to right, and reports true exactly when it has
  removed one, which is exactly when the pattern matches at some position of the buffer.
  The pattern matches at a position exactly when \<^verbatim>\<open>^\<close> holds there and the text from there
  on is optional white space, \<^verbatim>\<open>#pragma\<close>, white space, \<^verbatim>\<open>once\<close>, and then no word
  character. \<^verbatim>\<open>^\<close> holds at the start of the buffer; it holds after a line terminator
  only for an engine that treats it as a line anchor. For such an engine the leftmost
  occurrence, wherever its line is, is cut out and the scan goes on behind it; for an
  engine that follows ISO C++ only an occurrence at the very start of the buffer is
  removed.
\<close>

theorem once_marker_normalizer:
  "(snd (strip_pragma_once P source) \<longleftrightarrow> fst (strip_pragma_once P source) \<noteq> source)
   \<and> (snd (strip_pragma_once P source) \<longleftrightarrow>
        (\<exists>i<length source. \<exists>n. pragma_once_directive_re (anchors P) (char_before source i)
                                  (drop i source) = Some (Suc n)))
   \<and> (pragma_once_directive_re anc prev s = Some k \<longleftrightarrow>
        at_bol anc prev
        \<and> (\<exists>ws ws' post. s = ws @ ''#pragma'' @ ws' @ ''once'' @ post
              \<and> (\<forall>c\<in>set ws. is_space c) \<and> ws' \<noteq> [] \<and> (\<forall>c\<in>set ws'. is_space c)
              \<and> (post = [] \<or> \<not> is_word (hd post))
              \<and> k = length ws + 7 + length ws' + 4))
   \<and> ((\<forall>i<length pre. pragma_once_directive_re (anchors P) (char_before (pre @ rest) i)
                          (drop i (pre @ rest)) = None)
        \<and> pragma_once_directive_re (anchors P) (char_before (pre @ rest) (length pre)) rest = Some j
        \<longrightarrow> fst (strip_pragma_once P (pre @ rest))
            = pre @ regex_replace (pragma_once_directive_re (anchors P)) [] (Some CHR ''e'') (drop j rest))
   \<and> (anchors P = Input_only \<longrightarrow>
        fst (strip_pragma_once P source)
        = (case pragma_once_directive_re Input_only None source of None \<Rightarrow> source | Some k \<Rightarrow> drop k source))"
proof (intro conjI)
  show "snd (strip_pragma_once P source) \<longleftrightarrow> fst (strip_pragma_once P source) \<noteq> source"
    by (rule strip_pragma_once_changed)
  show "snd (strip_pragma_once P source) \<longleftrightarrow>
        (\<exists>i<length source. \<exists>n. pragma_once_directive_re (anchors P) (char_before source i)
                                  (drop i source) = Some (Suc n))"
    by (simp add: strip_pragma_once_found found_iff char_before_def)
  show "pragma_once_directive_re anc prev s = Some k \<longleftrightarrow>
        at_bol anc prev
        \<and> (\<exists>ws ws' post. s = ws @ ''#pragma'' @ ws' @ ''once'' @ post
              \<and> (\<forall>c\<in>set ws. is_space c) \<and> ws' \<noteq> [] \<and> (\<forall>c\<in>set ws'. is_space c)
              \<and> (post = [] \<or> \<not> is_word (hd post))
              \<and> k = length ws + 7 + length ws' + 4)"
  proof
    assume "pragma_once_directive_re anc prev s = Some k"
    from pragma_once_match [OF this] show "at_bol anc prev
        \<and> (\<exists>ws ws' post. s = ws @ ''#pragma'' @ ws' @ ''once'' @ post
              \<and> (\<forall>c\<in>set ws. is_space c) \<and> ws' \<noteq> [] \<and> (\<forall>c\<in>set ws'. is_space c)
              \<and> (post = [] \<or> \<not> is_word (hd post))
              \<and> k = length ws + 7 + length ws' + 4)"
      by fast
  next
    assume "at_bol anc prev
        \<and> (\<exists>ws ws' post. s = ws @ ''#pragma'' @ ws' @ ''once'' @ post
              \<and> (\<forall>c\<in>set ws. is_space c) \<and> ws' \<noteq> [] \<and> (\<forall>c\<in>set ws'. is_space c)
              \<and> (post = [] \<or> \<not> is_word (hd post))
              \<and> k = length ws + 7 + length ws' + 4)"
    then obtain ws ws' post where bol: "at_bol anc prev"
      and s: "s = ws @ ''#pragma'' @ ws' @ ''once'' @ post"
      and w: "\<forall>c\<in>set ws. is_space c" "ws' \<noteq> []" "\<forall>c\<in>set ws'. is_space c"
        "post = [] \<or> \<not> is_word (hd post)"
      and k: "k = length ws + 7 + length ws' + 4"
      by fast
    from pragma_once_shape [OF bol w] show "pragma_once_directive_re anc prev s = Some k"
      unfolding s k .
  qed
  show "(\<forall>i<length pre. pragma_once_directive_re (anchors P) (char_before (pre @ rest) i)
                          (drop i (pre @ rest)) = None)
        \<and> pragma_once_directive_re (anchors P) (char_before (pre @ rest) (length pre)) rest = Some j
        \<longrightarrow> fst (strip_pragma_once P (pre @ rest))
            = pre @ regex_replace (pragma_once_directive_re (anchors P)) [] (Some CHR ''e'') (drop j rest)"
  proof (intro impI, elim conjE)
    assume "\<forall>i<length pre. pragma_once_directive_re (anchors P) (char_before (pre @ rest) i)
                          (drop i (pre @ rest)) = None"
      and "pragma_once_directive_re (anchors P) (char_before (pre @ rest) (length pre)) rest = Some j"
    then show "fst (strip_pragma_once P (pre @ rest))
            = pre @ regex_replace (pragma_once_directive_re (anchors P)) [] (Some CHR ''e'') (drop j rest)"
      by (rule strip_pragma_once_leftmost)
  qed
  show "anchors P = Input_only \<longrightarrow>
        fst (strip_pragma_once P source)
        = (case pragma_once_directive_re Input_only None source of None \<Rightarrow> source | Some k \<Rightarrow> drop k source)"
    by (simp add: strip_pragma_once_def Let_def pragma_once_iso)
qed

theorem once_marker_normalizer_witness:
  "fst (strip_pragma_once (reference_platform After_LF) ''X\<newline>#pragma once\<newline>Y'') = ''X\<newline>\<newline>Y''
   \<and> snd (strip_pragma_once (reference_platform After_LF) ''X\<newline>#pragma once\<newline>Y'')
   \<and> fst (strip_pragma_once (reference_platform Input_only) ''  #pragma  once\<newline>Y'') = ''\<newline>Y''
   \<and> pragma_once_directive_re Input_only None ''  #pragma  once\<newline>Y'' = Some 15"
proof -
  let ?P = "reference_platform After_LF"
  let ?I = "reference_platform Input_only"
  have anc: "anchors ?P = After_LF" "anchors ?I = Input_only"
    by (simp_all add: reference_platform_def)
  have none: "\<forall>i<length ''X\<newline>''. pragma_once_directive_re (anchors ?P)
      (char_before (''X\<newline>'' @ ''#pragma once\<newline>Y'') i) (drop i (''X\<newline>'' @ ''#pragma once\<newline>Y'')) = None"
  proof (intro allI impI)
    fix i :: nat
    assume "i < length ''X\<newline>''"
    then have "i = 0 \<or> i = 1" by auto
    then show "pragma_once_directive_re (anchors ?P)
        (char_before (''X\<newline>'' @ ''#pragma once\<newline>Y'') i) (drop i (''X\<newline>'' @ ''#pragma once\<newline>Y'')) = None"
      by (elim disjE)
        (simp_all add: anc char_before_def pragma_once_directive_re_def at_bol_def
          is_space_def line_anchor_def)
  qed
  have m: "pragma_once_directive_re (anchors ?P)
      (char_before (''X\<newline>'' @ ''#pragma once\<newline>Y'') (length ''X\<newline>'')) ''#pragma once\<newline>Y'' = Some 12"
    by (simp add: anc char_before_def pragma_once_directive_re_def at_bol_def
        is_space_def line_anchor_def is_word_def is_alnum_def)
  have rest: "regex_replace (pragma_once_directive_re (anchors ?P)) [] (Some CHR ''e'') ''\<newline>Y'' = ''\<newline>Y''"
    by (simp add: anc pragma_once_directive_re_def at_bol_def is_space_def line_anchor_def)
  have iso: "pragma_once_directive_re Input_only None ''  #pragma  once\<newline>Y'' = Some 15"
    by (simp add: pragma_once_directive_re_def at_bol_def is_space_def is_word_def is_alnum_def)
  note t = once_marker_normalizer [of ?P "''X\<newline>'' @ ''#pragma once\<newline>Y''" Input_only None "[]" 0
      "''X\<newline>''" "''#pragma once\<newline>Y''" 12]
  note u = once_marker_normalizer [of ?I "''  #pragma  once\<newline>Y''" Input_only None "[]" 0 "[]" "[]" 0]
  from t none m rest have a: "fst (strip_pragma_once ?P (''X\<newline>'' @ ''#pragma once\<newline>Y'')) = ''X\<newline>\<newline>Y''"
    by simp
  with t have b: "snd (strip_pragma_once ?P (''X\<newline>'' @ ''#pragma once\<newline>Y''))"
    by simp
  from u anc iso have c: "fst (strip_pragma_once ?I ''  #pragma  once\<newline>Y'') = ''\<newline>Y''"
    by simp
  from a b c iso show ?thesis by simp
qed

section \<open>The once-marker and the comments\<close>

lemma strip_pragma_once_iso_found:
  assumes "anchors P = Input_only"
  shows "snd (strip_pragma_once P source) \<longleftrightarrow> pragma_once_directive_re Input_only None source \<noteq> None"
proof (cases source)
  case Nil
  with assms show ?thesis
    by (simp add: strip_pragma_once_found pragma_once_directive_re_def)
next
  case (Cons c cs)
  show ?thesis
  proof (cases "pragma_once_directive_re Input_only None source")
    case None
    with assms Cons pragma_once_iso_rest [of c cs] show ?thesis
      by (simp add: strip_pragma_once_found)
  next
    case (Some k)
    from pragma_once_match [OF Some] obtain n where "k = Suc n"
      by (cases k) auto
    with assms Cons Some show ?thesis
      by (simp add: strip_pragma_once_found)
  qed
qed

lemma strip_pragma_once_line_start:
  assumes lt: "line_anchor (anchors P) lt"
    and ws: "\<forall>c\<in>set ws. is_space c"
    and ws': "ws' \<noteq> []" "\<forall>c\<in>set ws'. is_space c"
    and post: "post = [] \<or> \<not> is_word (hd post)"
  shows "snd (strip_pragma_once P (pre @ lt # ws @ ''#pragma'' @ ws' @ ''once'' @ post))"
proof -
  let ?m = "ws @ ''#pragma'' @ ws' @ ''once'' @ post"
  let ?s = "pre @ lt # ?m"
  let ?i = "Suc (length pre)"
  from lt have bol: "at_bol (anchors P) (Some lt)"
    by (simp add: at_bol_def)
  have m: "pragma_once_directive_re (anchors P) (Some lt) ?m = Some (length ws + 7 + length ws' + 4)"
    using bol ws ws' post by (rule pragma_once_shape)
  have i: "?i < length ?s" by simp
  have d: "drop ?i ?s = ?m" by simp
  have c: "?s ! (?i - 1) = lt" by simp
  have "\<exists>i<length ?s. \<exists>n. pragma_once_directive_re (anchors P)
          (if i = 0 then None else Some (?s ! (i - 1))) (drop i ?s) = Some (Suc n)"
  proof (intro exI conjI)
    show "?i < length ?s" by (rule i)
    show "pragma_once_directive_re (anchors P) (if ?i = 0 then None else Some (?s ! (?i - 1))) (drop ?i ?s)
          = Some (Suc (length ws + 7 + length ws' + 3))"
      unfolding d c using m by simp
  qed
  then show ?thesis
    unfolding strip_pragma_once_found found_iff .
qed

text \<open>
  Claim C8, as stated, fails. On every platform a marker that is commented out with
  \<^verbatim>\<open>//\<close> is not detected, since only white space may stand between the start of the line
  and \<^verbatim>\<open>#pragma\<close>; and where \<^verbatim>\<open>^\<close> is anchored as ISO C++ says, a marker on a line of its
  own inside a block comment is not detected either. In both runs the content comes back
  without a guard.
\<close>

theorem once_marker_before_comments_counterexample:
  "do_preprocess 1 (reference_platform After_LF) Map.empty \<lparr>visiting = {}, should_skip = {}\<rparr>
       ''a.glsl'' ''// #pragma once\<newline>X''
     = Some (Inr \<lparr>content = ''\<newline>X'', has_pragma_once = False\<rparr>,
             \<lparr>visiting = {}, should_skip = {}\<rparr>)
   \<and> do_preprocess 1 (reference_platform Input_only) Map.empty \<lparr>visiting = {}, should_skip = {}\<rparr>
       ''a.glsl'' ''/*\<newline>#pragma once\<newline>*/\<newline>X''
     = Some (Inr \<lparr>content = ''\<newline>X'', has_pragma_once = False\<rparr>,
             \<lparr>visiting = {}, should_skip = {}\<rparr>)"
  by code_simp

text \<open>
  Claim C8, amended. On a finite file system a call ends, and when it ends with a result,
  the flag of the result is what the scan of the raw source found: the marker is looked
  for, and removed, in the raw source (line 90), and the comments are stripped from what
  the removal leaves (line 105), before the loop runs and the guard is put around its
  output. So a marker inside a comment is detected exactly when the pattern matches
  there. For an engine that treats \<^verbatim>\<open>^\<close> as a line anchor, a marker that starts its line
  (but for white space), inside a comment or not, is detected. For an engine that follows
  ISO C++, the marker is detected only at the very start of the buffer, where no comment
  can hold it.
\<close>

theorem once_marker_before_comments:
  "(finite (dom fs) \<and> card (dom fs) + 2 \<le> depth \<longrightarrow>
      (\<exists>out session'. do_preprocess depth P fs session filename source = Some (out, session')
          \<and> (\<forall>result. out = Inr result \<longrightarrow>
                has_pragma_once result = snd (strip_pragma_once P source))))
   \<and> (generic_string P filename \<notin> visiting session \<longrightarrow>
        do_preprocess (Suc depth) P fs session filename source =
          (case include_loop (do_preprocess depth P fs) P fs
                   (session\<lparr>visiting := insert (generic_string P filename) (visiting session)\<rparr>)
                   (strip_comments (fst (strip_pragma_once P source))) 0 of
             None \<Rightarrow> None
           | Some (Inl e, s2) \<Rightarrow> Some (Inl e, s2)
           | Some (Inr expanded, s2) \<Rightarrow>
               Some (Inr \<lparr>content =
                            (if snd (strip_pragma_once P source)
                             then add_include_guard (guard_macro P (generic_string P filename)) expanded
                             else expanded),
                          has_pragma_once = snd (strip_pragma_once P source)\<rparr>,
                     s2\<lparr>visiting := visiting s2 - {generic_string P filename}\<rparr>)))
   \<and> (generic_string P filename \<notin> visiting session
        \<and> regex_search (c_str (strip_comments (fst (strip_pragma_once P source)))) = None \<longrightarrow>
        do_preprocess (Suc depth) P fs session filename source =
          Some (Inr \<lparr>content =
                       (if snd (strip_pragma_once P source)
                        then add_include_guard (guard_macro P (generic_string P filename))
                               (strip_comments (fst (strip_pragma_once P source)))
                        else strip_comments (fst (strip_pragma_once P source))),
                     has_pragma_once = snd (strip_pragma_once P source)\<rparr>,
                session))
   \<and> (snd (strip_pragma_once P source) \<longleftrightarrow>
        (\<exists>i<length source. \<exists>n. pragma_once_directive_re (anchors P) (char_before source i)
                                  (drop i source) = Some (Suc n)))
   \<and> (line_anchor (anchors P) lt \<and> (\<forall>c\<in>set ws. is_space c)
        \<and> ws' \<noteq> [] \<and> (\<forall>c\<in>set ws'. is_space c) \<and> (post = [] \<or> \<not> is_word (hd post))
        \<longrightarrow> snd (strip_pragma_once P (pre @ lt # ws @ ''#pragma'' @ ws' @ ''once'' @ post)))
   \<and> (anchors P = Input_only \<longrightarrow>
        (snd (strip_pragma_once P source) \<longleftrightarrow> pragma_once_directive_re Input_only None source \<noteq> None))"
proof (intro conjI impI; (elim conjE)?)
  show "\<exists>out session'. do_preprocess depth P fs session filename source = Some (out, session')
          \<and> (\<forall>result. out = Inr result \<longrightarrow>
                has_pragma_once result = snd (strip_pragma_once P source))"
    if "finite (dom fs)" "card (dom fs) + 2 \<le> depth"
  proof -
    from do_preprocess_total [OF that] obtain out session' where
      run: "do_preprocess depth P fs session filename source = Some (out, session')"
      by blast
    have "has_pragma_once result = snd (strip_pragma_once P source)" if "out = Inr result" for result
      using do_preprocess_result [of depth P fs session filename source result session'] run that
      by simp
    with run show ?thesis by blast
  qed
  show "do_preprocess (Suc depth) P fs session filename source =
          (case include_loop (do_preprocess depth P fs) P fs
                   (session\<lparr>visiting := insert (generic_string P filename) (visiting session)\<rparr>)
                   (strip_comments (fst (strip_pragma_once P source))) 0 of
             None \<Rightarrow> None
           | Some (Inl e, s2) \<Rightarrow> Some (Inl e, s2)
           | Some (Inr expanded, s2) \<Rightarrow>
               Some (Inr \<lparr>content =
                            (if snd (strip_pragma_once P source)
                             then add_include_guard (guard_macro P (generic_string P filename)) expanded
                             else expanded),
                          has_pragma_once = snd (strip_pragma_once P source)\<rparr>,
                     s2\<lparr>visiting := visiting s2 - {generic_string P filename}\<rparr>))"
    if "generic_string P filename \<notin> visiting session"
    using that by (rule do_preprocess_unfold)
  show "do_preprocess (Suc depth) P fs session filename source =
          Some (Inr \<lparr>content =
                       (if snd (strip_pragma_once P source)
                        then add_include_guard (guard_macro P (generic_string P filename))
                               (strip_comments (fst (strip_pragma_once P source)))
                        else strip_comments (fst (strip_pragma_once P source))),
                     has_pragma_once = snd (strip_pragma_once P source)\<rparr>,
                session)"
    if "generic_string P filename \<notin> visiting session"
      "regex_search (c_str (strip_comments (fst (strip_pragma_once P source)))) = None"
    using that by (rule do_preprocess_leaf)
  show "snd (strip_pragma_once P source) \<longleftrightarrow>
        (\<exists>i<length source. \<exists>n. pragma_once_directive_re (anchors P) (char_before source i)
                                  (drop i source) = Some (Suc n))"
    by (simp add: strip_pragma_once_found found_iff char_before_def)
  show "snd (strip_pragma_once P (pre @ lt # ws @ ''#pragma'' @ ws' @ ''once'' @ post))"
    if "line_anchor (anchors P) lt" "\<forall>c\<in>set ws. is_space c" "ws' \<noteq> []"
      "\<forall>c\<in>set ws'. is_space c" "post = [] \<or> \<not> is_word (hd post)"
    using that by (rule strip_pragma_once_line_start)
  show "snd (strip_pragma_once P source) \<longleftrightarrow> pragma_once_directive_re Input_only None source \<noteq> None"
    if "anchors P = Input_only"
    using that by (rule strip_pragma_once_iso_found)
qed

theorem once_marker_before_comments_witness:
  "do_preprocess (Suc 1) (reference_platform After_LF) Map.empty \<lparr>visiting = {}, should_skip = {}\<rparr>
       ''a.glsl'' ''/*\<newline>#pragma once\<newline>*/\<newline>X''
     = Some (Inr \<lparr>content = ''#ifndef NAMA_INCLUDE_GUARD_a_glsl_6\<newline>#define NAMA_INCLUDE_GUARD_a_glsl_6\<newline>\<newline>X\<newline>#endif // NAMA_INCLUDE_GUARD_a_glsl_6\<newline>'',
                   has_pragma_once = True\<rparr>,
             \<lparr>visiting = {}, should_skip = {}\<rparr>)
   \<and> snd (strip_pragma_once (reference_platform After_LF) ''/*\<newline>#pragma once\<newline>*/\<newline>X'')
   \<and> \<not> snd (strip_pragma_once (reference_platform After_LF)
            (strip_comments ''/*\<newline>#pragma once\<newline>*/\<newline>X''))
   \<and> snd (strip_pragma_once (reference_platform Input_only) ''#pragma once\<newline>X'')
   \<and> (\<exists>out session'.
         do_preprocess 3 (reference_platform After_LF) [''b'' \<mapsto> ''/*\<newline>#pragma once\<newline>*/\<newline>X'']
           \<lparr>visiting = {}, should_skip = {}\<rparr> ''a.glsl'' ''#include \"b\"'' = Some (out, session')
         \<and> (\<forall>result. out = Inr result \<longrightarrow> \<not> has_pragma_once result))"
proof -
  let ?P = "reference_platform After_LF"
  let ?I = "reference_platform Input_only"
  let ?s = "\<lparr>visiting = {}, should_skip = {}\<rparr>"
  let ?src = "''/*\<newline>#pragma once\<newline>*/\<newline>X''"
  let ?fs = "[''b'' \<mapsto> ?src]"
  have v: "generic_string ?P ''a.glsl'' \<notin> visiting ?s"
    by simp
  have hyps: "line_anchor (anchors ?P) CHR 0x0A" "\<forall>c\<in>set []. is_space c" "'' '' \<noteq> []"
    "\<forall>c\<in>set '' ''. is_space c" "''\<newline>*/\<newline>X'' = [] \<or> \<not> is_word (hd ''\<newline>*/\<newline>X'')"
    by (simp_all add: reference_platform_def line_anchor_def is_space_def is_word_def is_alnum_def)
  have src: "?src = ''/*'' @ CHR 0x0A # [] @ ''#pragma'' @ '' '' @ ''once'' @ ''\<newline>*/\<newline>X''"
    by simp
  have stripped: "fst (strip_pragma_once ?P ?src) = ''/*\<newline>\<newline>*/\<newline>X''"
    "strip_comments ''/*\<newline>\<newline>*/\<newline>X'' = ''\<newline>X''"
    "regex_search (c_str ''\<newline>X'') = None"
    "\<not> snd (strip_pragma_once ?P (strip_comments ?src))"
    "guard_macro ?P ''a.glsl'' = ''NAMA_INCLUDE_GUARD_a_glsl_6''"
    by code_simp+
  have g: "generic_string ?P ''a.glsl'' = ''a.glsl''"
    by (simp add: reference_platform_def)
  have iso: "pragma_once_directive_re Input_only None ''#pragma once\<newline>X'' \<noteq> None"
    by (simp add: pragma_once_directive_re_def at_bol_def is_space_def is_word_def is_alnum_def)
  have fin: "finite (dom ?fs)" "card (dom ?fs) + 2 \<le> 3"
    by simp_all
  have plain: "\<not> snd (strip_pragma_once ?P ''#include \"b\"'')"
    by code_simp
  note l = once_marker_before_comments [where P = ?P and fs = Map.empty and depth = 1 and session = ?s
      and filename = "''a.glsl''" and source = ?src and lt = "CHR 0x0A" and ws = "[]" and ws' = "'' ''"
      and post = "''\<newline>*/\<newline>X''" and pre = "''/*''"]
  note u = once_marker_before_comments [where P = ?I and source = "''#pragma once\<newline>X''"
      and ws' = "[]"]
  note w = once_marker_before_comments [where P = ?P and fs = ?fs and depth = 3 and session = ?s
      and filename = "''a.glsl''" and source = "''#include \"b\"''" and ws' = "[]"]
  from l hyps have found: "snd (strip_pragma_once ?P ?src)"
    unfolding src by blast
  have n: "regex_search (c_str (strip_comments (fst (strip_pragma_once ?P ?src)))) = None"
    unfolding stripped ..
  from l have "generic_string ?P ''a.glsl'' \<notin> visiting ?s
        \<and> regex_search (c_str (strip_comments (fst (strip_pragma_once ?P ?src)))) = None \<longrightarrow>
      do_preprocess (Suc 1) ?P Map.empty ?s ''a.glsl'' ?src
      = Some (Inr \<lparr>content =
                       (if snd (strip_pragma_once ?P ?src)
                        then add_include_guard (guard_macro ?P (generic_string ?P ''a.glsl''))
                               (strip_comments (fst (strip_pragma_once ?P ?src)))
                        else strip_comments (fst (strip_pragma_once ?P ?src))),
                     has_pragma_once = snd (strip_pragma_once ?P ?src)\<rparr>, ?s)"
    by blast
  with v n found have "do_preprocess (Suc 1) ?P Map.empty ?s ''a.glsl'' ?src
      = Some (Inr \<lparr>content = add_include_guard ''NAMA_INCLUDE_GUARD_a_glsl_6'' ''\<newline>X'',
                    has_pragma_once = True\<rparr>, ?s)"
    unfolding stripped g by (simp del: do_preprocess.simps)
  moreover have "add_include_guard ''NAMA_INCLUDE_GUARD_a_glsl_6'' ''\<newline>X''
      = ''#ifndef NAMA_INCLUDE_GUARD_a_glsl_6\<newline>#define NAMA_INCLUDE_GUARD_a_glsl_6\<newline>\<newline>X\<newline>#endif // NAMA_INCLUDE_GUARD_a_glsl_6\<newline>''"
    by code_simp
  moreover from u have "anchors ?I = Input_only \<longrightarrow>
      (snd (strip_pragma_once ?I ''#pragma once\<newline>X'')
         \<longleftrightarrow> pragma_once_directive_re Input_only None ''#pragma once\<newline>X'' \<noteq> None)"
    by blast
  with iso have "snd (strip_pragma_once ?I ''#pragma once\<newline>X'')"
    by (simp add: reference_platform_def)
  moreover from w fin plain
  have "\<exists>out session'. do_preprocess 3 ?P ?fs ?s ''a.glsl'' ''#include \"b\"'' = Some (out, session')
         \<and> (\<forall>result. out = Inr result \<longrightarrow> \<not> has_pragma_once result)"
    by blast
  ultimately show ?thesis
    using found stripped(4) by (simp del: do_preprocess.simps)
qed

section \<open>The Comment Stripper\<close>
































section \<open>The Guard Synthesizer\<close>



















end
